theory Spec2Isabelle
  imports Complex_Main
begin

section \<open>Python values used by the deploy adapter\<close>

text \<open>
  A Python \<open>str\<close> is modelled as a \<open>string\<close> whose characters are the code points
  below 256 (Latin-1); \<open>bytes\<close> is a \<open>string\<close> whose characters are the bytes.
  On this range \<open>str.lower\<close>, \<open>str.strip\<close> and \<open>str.encode\<close> (UTF-8) are
  written out exactly as CPython computes them.
\<close>

type_synonym bytes = string

definition lower_char :: "char \<Rightarrow> char" where
  "lower_char c =
     (let n = (of_char c :: nat)
      in if (65 \<le> n \<and> n \<le> 90) \<or> (192 \<le> n \<and> n \<le> 222 \<and> n \<noteq> 215)
         then char_of (n + 32) else c)"

definition py_lower :: "string \<Rightarrow> string" where
  "py_lower s = map lower_char s"

definition py_isspace :: "char \<Rightarrow> bool" where
  "py_isspace c =
     (let n = (of_char c :: nat)
      in (9 \<le> n \<and> n \<le> 13) \<or> (28 \<le> n \<and> n \<le> 32) \<or> n = 133 \<or> n = 160)"

definition py_strip :: "string \<Rightarrow> string" where
  "py_strip s = rev (dropWhile py_isspace (rev (dropWhile py_isspace s)))"

definition utf8_char :: "char \<Rightarrow> bytes" where
  "utf8_char c =
     (let n = (of_char c :: nat)
      in if n < 128 then [c] else [char_of (192 + n div 64), char_of (128 + n mod 64)])"

definition py_encode :: "string \<Rightarrow> bytes" where
  "py_encode s = concat (map utf8_char s)"

fun contains :: "'a list \<Rightarrow> 'a list \<Rightarrow> bool" where
  "contains sub [] = (sub = [])"
| "contains sub (y # ys) = (take (length sub) (y # ys) = sub \<or> contains sub ys)"

fun startswith :: "'a list \<Rightarrow> 'a list \<Rightarrow> bool" where
  "startswith [] s = True"
| "startswith (p # ps) [] = False"
| "startswith (p # ps) (c # cs) = (p = c \<and> startswith ps cs)"

fun join_sp :: "string list \<Rightarrow> string" where
  "join_sp [] = []"
| "join_sp [x] = x"
| "join_sp (x # y # ys) = x @ '' '' @ join_sp (y # ys)"

definition str_truthy :: "string option \<Rightarrow> bool" where
  "str_truthy v = (case v of None \<Rightarrow> False | Some s \<Rightarrow> s \<noteq> [])"

text \<open>
  A decoded JSON value. An object carries the items of the Python dict it decodes to
  (keys are unique there; \<open>dict.get\<close> is \<open>map_of\<close> on the items). A number carries its
  value; only its truth value and its not being a \<open>str\<close> are ever looked at.
\<close>

datatype json =
    JNull
  | JBool bool
  | JNum rat
  | JStr string
  | JArr "json list"
  | JObj "(string \<times> json) list"

fun truthy :: "json \<Rightarrow> bool" where
  "truthy JNull = False"
| "truthy (JBool b) = b"
| "truthy (JNum n) = (n \<noteq> 0)"
| "truthy (JStr s) = (s \<noteq> [])"
| "truthy (JArr xs) = (xs \<noteq> [])"
| "truthy (JObj kvs) = (kvs \<noteq> [])"

definition py_or :: "json \<Rightarrow> json \<Rightarrow> json" where
  "py_or a b = (if truthy a then a else b)"

definition dict_get :: "(string \<times> json) list \<Rightarrow> string \<Rightarrow> json" where
  "dict_get d k = (case map_of d k of None \<Rightarrow> JNull | Some v \<Rightarrow> v)"

section \<open>Events, state and the outside world\<close>

text \<open>
  A run is a function from a state to a state and a result. The state holds the trace
  of what the run did, in order (lines printed, child processes with their exit codes,
  HTTP requests, sleeps, file-system calls), the files and the directories the run
  created. Everything outside the program is a \<open>world\<close>: how each child process ends
  (given all that happened before it), which deletions and copies the file system
  allows, the names the temporary-file calls return, the environment variables, the
  clock and the answers of the status endpoint.

  An exception is a result \<open>Inl\<close>: the four \<open>SystemExit\<close>s of the source by name, any
  other exception as \<open>PyError\<close> with its class. The file-system calls of the
  materializer (\<open>mkstemp\<close>, \<open>os.write\<close>, \<open>os.close\<close>, \<open>os.chmod\<close>) fail with
  \<open>OSError\<close> when the world says so. \<open>mkdtemp\<close> and \<open>print\<close> succeed in the model; the
  output of a child process is its decoded text. A printed line is a list of pieces, so
  that numbers and JSON values need no formatting; messages are written in ASCII.
\<close>

datatype piece = T string | I int | J json | JO "json option"

datatype cmd = Argv "string list" | Shell string

record invocation =
  inv_cmd :: cmd
  inv_cwd :: "string option"
  inv_git_ssh_command :: "string option"
  inv_capture :: bool

record procres =
  returncode :: int
  p_stdout :: string
  p_stderr :: string

type_synonym entry = "string \<times> bool"

datatype event =
    Print "piece list"
  | Exec invocation int
  | HttpGet string "(string \<times> string) list"
  | Sleep int
  | MkSTemp string
  | WriteFile string bytes
  | Chmod string nat
  | RemoveFile string
  | MkDTemp string
  | DeleteEntry string entry
  | CopyEntry string entry
  | RmTree string

datatype exc =
    CommandFailed string int
  | DirtyWorktree
  | ArtifactDirMissing string
  | DeploymentFailed json
  | PyError string

datatype response = RequestFailed | Body json

datatype path_kind = Absent | RegularFile | Directory "entry list"

record st =
  trace :: "event list"
  files :: "string \<rightharpoonup> bytes \<times> nat"
  trees :: "string \<rightharpoonup> entry list"

record world =
  w_exec :: "event list \<Rightarrow> invocation \<Rightarrow> procres"
  w_b64decode :: "string \<Rightarrow> bytes option"
  w_key_path :: string
  w_mkstemp_ok :: bool
  w_write_ok :: bool
  w_close_ok :: bool
  w_chmod_ok :: bool
  w_tmp_dir :: string
  w_clone_tree :: "entry list"
  w_delete_ok :: "entry \<Rightarrow> bool"
  w_path :: "string \<Rightarrow> path_kind"
  w_copy_ok :: "entry \<Rightarrow> bool"
  w_remove_ok :: bool
  w_rmtree_ok :: bool
  w_timestamp :: string
  w_now :: rat
  w_http :: "(rat \<times> response) list"
  w_GIT_SSH_KEY :: "string option"
  w_GIT_SSH_KEY_BASE64 :: "string option"
  w_BACKEND_IM_TOKEN :: "string option"
  w_GHCR_USER :: "string option"
  w_GHCR_TOKEN :: "string option"

type_synonym 'a prog = "st \<Rightarrow> st \<times> (exc + 'a)"

definition emit :: "event \<Rightarrow> st \<Rightarrow> st" where
  "emit e s = s\<lparr>trace := trace s @ [e]\<rparr>"

definition emits :: "event list \<Rightarrow> st \<Rightarrow> st" where
  "emits es s = s\<lparr>trace := trace s @ es\<rparr>"

definition say :: "piece list \<Rightarrow> unit prog" where
  "say ps s = (emit (Print ps) s, Inr ())"

definition seq :: "'a prog \<Rightarrow> ('a \<Rightarrow> 'b prog) \<Rightarrow> 'b prog" where
  "seq m f s = (case m s of (s', Inl e) \<Rightarrow> (s', Inl e) | (s', Inr v) \<Rightarrow> f v s')"

definition try_finally :: "'a prog \<Rightarrow> (st \<Rightarrow> st) \<Rightarrow> 'a prog" where
  "try_finally body cleanup s = (case body s of (s', r) \<Rightarrow> (cleanup s', r))"

section \<open>Status Poller\<close>

text \<open>
  A request either raises a \<open>requests.RequestException\<close> (no connection, a time-out, an
  HTTP error status, a body that is not JSON) or gives the decoded body. The world
  scripts the endpoint: for each poll in turn, the time the cycle takes beyond the
  sleep and the outcome of the request. \<open>w_now\<close> is the clock when the
  deadline is computed. The loop returns \<open>None\<close> only when it would poll and the
  script has no further answer.
\<close>

definition success_tokens :: "string list" where
  "success_tokens = [''done'', ''success'', ''ready'']"

definition failure_tokens :: "string list" where
  "failure_tokens = [''failed'', ''error'']"

definition resolve_status :: "(string \<times> json) list \<Rightarrow> json" where
  "resolve_status d =
     py_or (py_or (py_or (dict_get d ''status'') (dict_get d ''state''))
                  (dict_get d ''deploy_status''))
           JNull"

text \<open>
  One pass through the loop body, up to the sleep: return the payload, raise, or go on
  with the payload last seen.
\<close>

datatype step = Return json | Raise exc | Continue "json option"

definition poll_cycle :: "response \<Rightarrow> json option \<Rightarrow> event list \<times> step" where
  "poll_cycle resp seen =
     (case resp of
        RequestFailed \<Rightarrow> ([Print [T ''Status poll request error:'']], Continue seen)
      | Body j \<Rightarrow>
          (case j of
             JObj d \<Rightarrow>
               (let status = resolve_status d;
                    shown = [Print [T ''status ->'', J status, T ''payload ->'', J j]]
                in if truthy status then
                     (case status of
                        JStr s \<Rightarrow>
                          if py_lower s \<in> set success_tokens then
                            (shown @ [Print [T ''Deployment finished successfully'']], Return j)
                          else if py_lower s \<in> set failure_tokens then
                            (shown, Raise (DeploymentFailed j))
                          else (shown, Continue (Some j))
                      | _ \<Rightarrow> (shown, Raise (PyError ''AttributeError'')))
                   else (shown, Continue (Some j)))
           | _ \<Rightarrow> ([], Raise (PyError ''AttributeError''))))"

text \<open>
  The function returns at two places: the payload of a finished deployment (line 186)
  and the last payload seen when the deadline has passed (line 194).
\<close>

datatype poll_result = Finished json | TimedOut "json option"

fun poll_loop ::
  "string \<Rightarrow> (string \<times> string) list \<Rightarrow> int \<Rightarrow> rat \<Rightarrow> rat \<Rightarrow> json option \<Rightarrow>
   (rat \<times> response) list \<Rightarrow> st \<Rightarrow> (st \<times> (exc + poll_result)) option" where
  "poll_loop url headers interval deadline now seen [] s =
     (if now < deadline then None
      else Some (emit (Print [T ''Status poll timed out; last response:'', JO seen]) s,
                 Inr (TimedOut seen)))"
| "poll_loop url headers interval deadline now seen ((delay, resp) # rest) s =
     (if now < deadline then
        (case poll_cycle resp seen of
           (evs, Return j) \<Rightarrow> Some (emits (HttpGet url headers # evs) s, Inr (Finished j))
         | (evs, Raise e) \<Rightarrow> Some (emits (HttpGet url headers # evs) s, Inl e)
         | (evs, Continue seen') \<Rightarrow>
             (if interval < 0 then
                Some (emits (HttpGet url headers # evs) s, Inl (PyError ''ValueError''))
              else
                poll_loop url headers interval deadline (now + delay + of_int interval) seen' rest
                  (emits (HttpGet url headers # evs @ [Sleep interval]) s)))
      else Some (emit (Print [T ''Status poll timed out; last response:'', JO seen]) s,
                 Inr (TimedOut seen)))"

text \<open>
  \<open>time.time() + timeout\<close> converts the timeout to a float and raises
  \<open>OverflowError\<close> when it is beyond the largest float. Below that the clock and the
  deadline are exact rationals: the rounding of the addition is not modelled, nor a
  sleep length beyond the range of the C time type (\<open>main\<close> passes 3).
\<close>

definition float_overflow :: "int \<Rightarrow> bool" where
  "float_overflow n = (2 ^ 1024 - 2 ^ 970 \<le> \<bar>n\<bar>)"

definition poll_status_url ::
  "world \<Rightarrow> string \<Rightarrow> string option \<Rightarrow> int \<Rightarrow> int \<Rightarrow> st \<Rightarrow> (st \<times> (exc + poll_result)) option" where
  "poll_status_url w status_url token interval timeout s =
     (let s1 = emit (Print [T ''Polling status URL: '', T status_url, T '' (timeout '', I timeout, T ''s)'']) s;
          headers = (case token of
                       None \<Rightarrow> []
                     | Some t \<Rightarrow> if t \<noteq> [] then [(''Authorization'', ''Bearer '' @ t)] else [])
      in if float_overflow timeout then Some (s1, Inl (PyError ''OverflowError''))
         else poll_loop status_url headers interval (w_now w + of_int timeout) (w_now w) None
                (w_http w) s1)"

section \<open>Command Runner\<close>

definition display :: "cmd \<Rightarrow> string" where
  "display c = (case c of Argv xs \<Rightarrow> join_sp xs | Shell s \<Rightarrow> s)"

text \<open>
  \<open>run\<close> is the same function in both source files. The outcome of the child process is
  the world's answer to the invocation, given everything that happened before it.
\<close>

definition run :: "world \<Rightarrow> invocation \<Rightarrow> bool \<Rightarrow> procres prog" where
  "run w c check s =
     (let s1 = emit (Print [T (''$ '' @ display (inv_cmd c))]) s;
          res = w_exec w (trace s1) c;
          s2 = emit (Exec c (returncode res)) s1
      in if returncode res \<noteq> 0 \<and> check then
           (emits [Print [T (if inv_capture c then p_stdout res else [])],
                   Print [T (if inv_capture c then p_stderr res else [])]] s2,
            Inl (CommandFailed (display (inv_cmd c)) (returncode res)))
         else (s2, Inr res))"

definition git :: "string list \<Rightarrow> string option \<Rightarrow> string option \<Rightarrow> bool \<Rightarrow> invocation" where
  "git argv cwd gsc capture =
     \<lparr>inv_cmd = Argv argv, inv_cwd = cwd, inv_git_ssh_command = gsc, inv_capture = capture\<rparr>"

definition ensure_clean_worktree :: "world \<Rightarrow> bool \<Rightarrow> unit prog" where
  "ensure_clean_worktree w allow_dirty =
     seq (run w (git [''git'', ''status'', ''--porcelain''] None None True) True)
       (\<lambda>res s.
          let dirty = py_strip (p_stdout res)
          in if dirty \<noteq> [] \<and> \<not> allow_dirty then
               (emit (Print [T (''Working tree has uncommitted changes:'' @ [CHR 0x0A]), T dirty]) s,
                Inl DirtyWorktree)
             else if dirty \<noteq> [] \<and> allow_dirty then
               say [T ''Warning: working tree is dirty but --allow-dirty set - proceeding.''] s
             else (s, Inr ()))"

section \<open>Credential Materializer\<close>

definition owner_only :: nat where
  "owner_only = 6 * 64"

text \<open>
  \<open>mkstemp\<close> creates the file empty with mode 0600. A call that fails after it raises
  out of the function with the file in place; the caller never learns its path.
\<close>

definition write_ssh_key_if_provided :: "world \<Rightarrow> string option \<Rightarrow> string option prog" where
  "write_ssh_key_if_provided w key_b64_or_raw s =
     (case key_b64_or_raw of
        None \<Rightarrow> (s, Inr None)
      | Some k \<Rightarrow>
          if k = [] then (s, Inr None)
          else
            (let candidate = py_strip k;
                 key_bytes =
                   (case w_b64decode w candidate of
                      Some decoded \<Rightarrow>
                        if \<not> contains ''BEGIN'' (take 50 decoded) then py_encode candidate
                        else decoded
                    | None \<Rightarrow> py_encode candidate);
                 path = w_key_path w
             in if \<not> w_mkstemp_ok w then (s, Inl (PyError ''OSError''))
                else
                  (let s1 = emit (MkSTemp path) (s\<lparr>files := (files s)(path \<mapsto> ([], owner_only))\<rparr>)
                   in if \<not> w_write_ok w then (s1, Inl (PyError ''OSError''))
                      else
                        (let s2 = emit (WriteFile path key_bytes)
                                    (s1\<lparr>files := (files s1)(path \<mapsto> (key_bytes, owner_only))\<rparr>)
                         in if \<not> w_close_ok w then (s2, Inl (PyError ''OSError''))
                            else if \<not> w_chmod_ok w then (s2, Inl (PyError ''OSError''))
                            else
                              (let s3 = emit (Chmod path owner_only)
                                          (s2\<lparr>files := (files s2)(path \<mapsto> (key_bytes, owner_only))\<rparr>);
                                   s4 = emit (Print [T (''Wrote temporary SSH key to '' @ path)]) s3
                               in (s4, Inr (Some path)))))))"

section \<open>Push Executor and Payload Preparer\<close>

definition git_ssh_command :: "string option \<Rightarrow> string option" where
  "git_ssh_command ssh_key_path =
     (case ssh_key_path of
        None \<Rightarrow> None
      | Some p \<Rightarrow>
          if p = [] then None else Some (''ssh -i '' @ p @ '' -o StrictHostKeyChecking=no''))"

definition announce_ssh :: "string option \<Rightarrow> unit prog" where
  "announce_ssh gsc s =
     (case gsc of
        None \<Rightarrow> (s, Inr ())
      | Some g \<Rightarrow> say [T (''Using GIT_SSH_COMMAND='' @ g)] s)"

definition remote_name :: string where
  "remote_name = ''backend_im_deploy''"

definition with_force :: "string list \<Rightarrow> bool \<Rightarrow> string list" where
  "with_force push_cmd force =
     (if force then take 2 push_cmd @ [''--force''] @ drop 2 push_cmd else push_cmd)"

definition remove_remote :: invocation where
  "remove_remote = git [''git'', ''remote'', ''remove'', remote_name] None None False"

definition add_remote :: "string \<Rightarrow> string option \<Rightarrow> invocation" where
  "add_remote remote_url gsc = git [''git'', ''remote'', ''add'', remote_name, remote_url] None gsc False"

definition push_head :: "string \<Rightarrow> bool \<Rightarrow> string option \<Rightarrow> invocation" where
  "push_head branch force gsc =
     git (with_force [''git'', ''push'', remote_name, ''HEAD:refs/heads/'' @ branch] force) None gsc False"

definition git_push_current_head ::
  "world \<Rightarrow> string \<Rightarrow> string \<Rightarrow> string option \<Rightarrow> bool \<Rightarrow> unit prog" where
  "git_push_current_head w remote_url branch ssh_key_path force =
     (let gsc = git_ssh_command ssh_key_path
      in seq (announce_ssh gsc)
          (\<lambda>_. seq (run w remove_remote False)
          (\<lambda>_. seq (run w (add_remote remote_url gsc) True)
          (\<lambda>_. seq (run w (push_head branch force gsc) True)
          (\<lambda>_. seq (run w remove_remote False)
          (\<lambda>_ s. (s, Inr ())))))))"

text \<open>
  The clone directory is a list of entries (name, is a directory). A successful
  \<open>git clone\<close> fills it with what the world says the remote holds.
\<close>

definition mkdtemp :: "world \<Rightarrow> string prog" where
  "mkdtemp w s =
     (emit (MkDTemp (w_tmp_dir w)) (s\<lparr>trees := (trees s)(w_tmp_dir w \<mapsto> [])\<rparr>),
      Inr (w_tmp_dir w))"

definition cloned :: "world \<Rightarrow> string \<Rightarrow> unit prog" where
  "cloned w tmp s = (s\<lparr>trees := (trees s)(tmp \<mapsto> w_clone_tree w)\<rparr>, Inr ())"

definition drop_entry :: "string \<Rightarrow> entry \<Rightarrow> st \<Rightarrow> st" where
  "drop_entry tmp p s =
     (case trees s tmp of
        None \<Rightarrow> s
      | Some es \<Rightarrow> s\<lparr>trees := (trees s)(tmp \<mapsto> filter (\<lambda>e. fst e \<noteq> fst p) es)\<rparr>)"

definition put_entry :: "string \<Rightarrow> entry \<Rightarrow> st \<Rightarrow> st" where
  "put_entry tmp p s =
     (case trees s tmp of
        None \<Rightarrow> s
      | Some es \<Rightarrow> s\<lparr>trees := (trees s)(tmp \<mapsto> filter (\<lambda>e. fst e \<noteq> fst p) es @ [p])\<rparr>)"

fun clean_entries :: "world \<Rightarrow> string \<Rightarrow> entry list \<Rightarrow> unit prog" where
  "clean_entries w tmp [] s = (s, Inr ())"
| "clean_entries w tmp (p # ps) s =
     (if fst p = ''.git'' then clean_entries w tmp ps s
      else if w_delete_ok w p then
        clean_entries w tmp ps (emit (DeleteEntry tmp p) (drop_entry tmp p s))
      else (s, Inl (PyError ''OSError'')))"

definition clean_worktree :: "world \<Rightarrow> string \<Rightarrow> unit prog" where
  "clean_worktree w tmp s =
     (case trees s tmp of
        None \<Rightarrow> (s, Inl (PyError ''FileNotFoundError''))
      | Some es \<Rightarrow> clean_entries w tmp es s)"

fun copy_items :: "world \<Rightarrow> string \<Rightarrow> entry list \<Rightarrow> unit prog" where
  "copy_items w tmp [] s = (s, Inr ())"
| "copy_items w tmp (item # items) s =
     (if w_copy_ok w item then
        copy_items w tmp items (emit (CopyEntry tmp item) (put_entry tmp item s))
      else (s, Inl (PyError ''OSError'')))"

definition copy_artifact :: "world \<Rightarrow> string \<Rightarrow> string \<Rightarrow> unit prog" where
  "copy_artifact w artifact_dir tmp s =
     (case w_path w artifact_dir of
        Absent \<Rightarrow> (s, Inl (ArtifactDirMissing artifact_dir))
      | RegularFile \<Rightarrow>
          (emit (Print [T (''Copying artifact from '' @ artifact_dir @ '' to temp repo...'')]) s,
           Inl (PyError ''NotADirectoryError''))
      | Directory items \<Rightarrow>
          copy_items w tmp items
            (emit (Print [T (''Copying artifact from '' @ artifact_dir @ '' to temp repo...'')]) s))"

definition clone_cmd :: "string \<Rightarrow> string \<Rightarrow> string option \<Rightarrow> invocation" where
  "clone_cmd remote_url tmp gsc = git [''git'', ''clone'', remote_url, tmp] None gsc False"

definition checkout_cmd :: "string \<Rightarrow> string \<Rightarrow> string option \<Rightarrow> invocation" where
  "checkout_cmd branch tmp gsc = git [''git'', ''checkout'', ''-B'', branch] (Some tmp) gsc False"

definition add_cmd :: "string \<Rightarrow> string option \<Rightarrow> invocation" where
  "add_cmd tmp gsc = git [''git'', ''add'', ''-A''] (Some tmp) gsc False"

definition commit_cmd :: "string \<Rightarrow> string \<Rightarrow> string option \<Rightarrow> invocation" where
  "commit_cmd commit_msg tmp gsc = git [''git'', ''commit'', ''-m'', commit_msg] (Some tmp) gsc False"

definition push_origin :: "string \<Rightarrow> bool \<Rightarrow> string \<Rightarrow> string option \<Rightarrow> invocation" where
  "push_origin branch force tmp gsc =
     git (with_force [''git'', ''push'', ''origin'', ''HEAD:refs/heads/'' @ branch] force)
       (Some tmp) gsc False"

text \<open>The body of the \<open>try\<close> block of \<open>git_push_artifact_dir\<close>.\<close>

definition git_push_artifact_dir_try ::
  "world \<Rightarrow> string \<Rightarrow> string \<Rightarrow> string \<Rightarrow> string option \<Rightarrow> string \<Rightarrow> bool \<Rightarrow> string \<Rightarrow> unit prog" where
  "git_push_artifact_dir_try w remote_url branch artifact_dir gsc commit_msg force tmp =
     seq (run w (clone_cmd remote_url tmp gsc) True)
     (\<lambda>_. seq (cloned w tmp)
     (\<lambda>_. seq (run w (checkout_cmd branch tmp gsc) True)
     (\<lambda>_. seq (clean_worktree w tmp)
     (\<lambda>_. seq (copy_artifact w artifact_dir tmp)
     (\<lambda>_. seq (run w (add_cmd tmp gsc) True)
     (\<lambda>_. seq (run w (commit_cmd commit_msg tmp gsc) False)
     (\<lambda>_. seq (run w (push_origin branch force tmp gsc) True)
     (\<lambda>_ s. (s, Inr ())))))))))"

text \<open>The \<open>finally\<close> block: \<open>shutil.rmtree(tmp, ignore_errors=True)\<close>.\<close>

definition remove_clone :: "world \<Rightarrow> string \<Rightarrow> st \<Rightarrow> st" where
  "remove_clone w tmp s =
     (let s1 = emit (Print [T ''Cleaning up tempdir'']) s
      in if w_rmtree_ok w then emit (RmTree tmp) (s1\<lparr>trees := (trees s1)(tmp := None)\<rparr>) else s1)"

definition git_push_artifact_dir ::
  "world \<Rightarrow> string \<Rightarrow> string \<Rightarrow> string \<Rightarrow> string option \<Rightarrow> string \<Rightarrow> bool \<Rightarrow> unit prog" where
  "git_push_artifact_dir w remote_url branch artifact_dir ssh_key_path commit_msg force =
     (let gsc = git_ssh_command ssh_key_path
      in seq (announce_ssh gsc)
          (\<lambda>_. seq (mkdtemp w)
          (\<lambda>tmp. seq (say [T (''Cloning remote into tempdir '' @ tmp @ '' ...'')])
          (\<lambda>_. try_finally
                  (git_push_artifact_dir_try w remote_url branch artifact_dir gsc commit_msg force tmp)
                  (remove_clone w tmp)))))"

section \<open>Deployment Orchestrator\<close>

record args =
  a_remote :: string
  a_branch :: string
  a_artifact_dir :: "string option"
  a_commit_msg :: "string option"
  a_allow_dirty :: bool
  a_force :: bool
  a_status_url :: "string option"
  a_status_timeout :: int
  a_skip_poll :: bool

definition or_default :: "string option \<Rightarrow> string \<Rightarrow> string" where
  "or_default v d = (case v of None \<Rightarrow> d | Some s \<Rightarrow> if s = [] then d else s)"

text \<open>Lines 221 to 229 of \<open>main\<close>: the push in the selected mode.\<close>

definition main_push :: "world \<Rightarrow> args \<Rightarrow> string option \<Rightarrow> unit prog" where
  "main_push w a ssh_key_path =
     seq (if \<not> str_truthy (a_artifact_dir a) then
            seq (ensure_clean_worktree w (a_allow_dirty a))
            (\<lambda>_. seq (say [T (''Pushing current HEAD to '' @ a_remote a @ '' branch '' @ a_branch a)])
            (\<lambda>_. git_push_current_head w (a_remote a) (a_branch a) ssh_key_path (a_force a)))
          else
            git_push_artifact_dir w (a_remote a) (a_branch a) (or_default (a_artifact_dir a) [])
              ssh_key_path (or_default (a_commit_msg a) (''deploy: '' @ w_timestamp w)) (a_force a))
     (\<lambda>_. say [T (''Push to '' @ a_remote a @ '' branch '' @ a_branch a @ '' complete.'')])"

text \<open>Lines 231 to 237: the poll, or the closing messages.\<close>

definition main_poll :: "world \<Rightarrow> args \<Rightarrow> st \<Rightarrow> (st \<times> (exc + unit)) option" where
  "main_poll w a s =
     (if str_truthy (a_status_url a) \<and> \<not> a_skip_poll a then
        (case poll_status_url w (or_default (a_status_url a) []) (w_BACKEND_IM_TOKEN w) 3
                (a_status_timeout a) s of
           None \<Rightarrow> None
         | Some (s', Inl e) \<Rightarrow> Some (s', Inl e)
         | Some (s', Inr _) \<Rightarrow> Some (s', Inr ()))
      else
        Some (emit (Print [T ''Done - check Backend.im dashboard or logs for deployment status if available.''])
                (if str_truthy (a_status_url a)
                 then emit (Print [T ''Status URL provided but polling skipped (--skip-poll set)'']) s
                 else s),
              Inr ()))"

definition main_try :: "world \<Rightarrow> args \<Rightarrow> string option \<Rightarrow> st \<Rightarrow> (st \<times> (exc + unit)) option" where
  "main_try w a ssh_key_path s =
     (case main_push w a ssh_key_path s of
        (s', Inl e) \<Rightarrow> Some (s', Inl e)
      | (s', Inr _) \<Rightarrow> main_poll w a s')"

text \<open>The \<open>finally\<close> block of \<open>main\<close>; a failing \<open>os.remove\<close> is swallowed.\<close>

definition main_finally :: "world \<Rightarrow> string option \<Rightarrow> st \<Rightarrow> st" where
  "main_finally w ssh_key_path s =
     (case ssh_key_path of
        None \<Rightarrow> s
      | Some p \<Rightarrow>
          if p \<noteq> [] \<and> files s p \<noteq> None then
            (if w_remove_ok w then emit (RemoveFile p) (s\<lparr>files := (files s)(p := None)\<rparr>) else s)
          else s)"

definition git_ssh_key :: "world \<Rightarrow> string option" where
  "git_ssh_key w = (if str_truthy (w_GIT_SSH_KEY w) then w_GIT_SSH_KEY w else w_GIT_SSH_KEY_BASE64 w)"

text \<open>
  \<open>main\<close> after argument parsing. The result is \<open>None\<close> only when the scripted status
  endpoint has no further answer for a poll the loop still makes.
\<close>

definition main :: "world \<Rightarrow> args \<Rightarrow> st \<Rightarrow> (st \<times> (exc + unit)) option" where
  "main w a s =
     (case (if str_truthy (git_ssh_key w) then write_ssh_key_if_provided w (git_ssh_key w) s
            else (s, Inr None)) of
        (s1, Inl e) \<Rightarrow> Some (main_finally w None s1, Inl e)
      | (s1, Inr ssh_key_path) \<Rightarrow>
          (case main_try w a ssh_key_path s1 of
             None \<Rightarrow> None
           | Some (s2, r) \<Rightarrow> Some (main_finally w ssh_key_path s2, r)))"

definition exit_status :: "exc + unit \<Rightarrow> nat" where
  "exit_status r = (case r of Inl _ \<Rightarrow> 1 | Inr _ \<Rightarrow> 0)"

section \<open>Registry login of the build workflow\<close>

definition docker_login_if_needed :: "world \<Rightarrow> string \<Rightarrow> unit prog" where
  "docker_login_if_needed w image_ref =
     (if startswith ''ghcr.io/'' image_ref then
        (if str_truthy (w_GHCR_USER w) \<and> str_truthy (w_GHCR_TOKEN w) then
           seq (say [T ''Logging in to ghcr.io...''])
           (\<lambda>_. seq (run w \<lparr>inv_cmd = Shell (''echo '' @ or_default (w_GHCR_TOKEN w) []
                                  @ '' | docker login ghcr.io -u '' @ or_default (w_GHCR_USER w) []
                                  @ '' --password-stdin''),
                             inv_cwd = None, inv_git_ssh_command = None, inv_capture = False\<rparr> True)
           (\<lambda>_ s. (s, Inr ())))
         else
           say [T ''No GHCR credentials provided in GHCR_USER/GHCR_TOKEN - assume docker is already logged in or image is public''])
      else if CHR '':'' \<in> set image_ref \<or> CHR ''/'' \<in> set image_ref then
        say [T ''Ensure you're logged in to your container registry (docker login) if auth is required.'']
      else (\<lambda>s. (s, Inr ())))"

section \<open>The standard decoder and a reference world\<close>

text \<open>
  \<open>base64.b64decode\<close> belongs to Python's standard library, so the materializer takes
  the decoder from the world. \<open>b64decode_std\<close> is the library's decoder in its default,
  non-validating mode: characters outside the alphabet are skipped, a text that is not
  ASCII or that ends inside a group of four is rejected (\<open>None\<close>).
\<close>

definition b64_value :: "char \<Rightarrow> nat option" where
  "b64_value c =
     (let n = (of_char c :: nat)
      in if 65 \<le> n \<and> n \<le> 90 then Some (n - 65)
         else if 97 \<le> n \<and> n \<le> 122 then Some (n - 71)
         else if 48 \<le> n \<and> n \<le> 57 then Some (n + 4)
         else if n = 43 then Some 62
         else if n = 47 then Some 63
         else None)"

fun a2b_base64 :: "nat \<Rightarrow> nat \<Rightarrow> nat \<Rightarrow> bytes \<Rightarrow> string \<Rightarrow> bytes option" where
  "a2b_base64 quad_pos leftchar pads out [] = (if quad_pos \<noteq> 0 then None else Some out)"
| "a2b_base64 quad_pos leftchar pads out (c # cs) =
     (if c = CHR ''='' then
        (if 2 \<le> quad_pos \<and> 4 \<le> quad_pos + (pads + 1) then Some out
         else a2b_base64 quad_pos leftchar (if 2 \<le> quad_pos then pads + 1 else pads) out cs)
      else
        (case b64_value c of
           None \<Rightarrow> a2b_base64 quad_pos leftchar pads out cs
         | Some v \<Rightarrow>
             if quad_pos = 0 then a2b_base64 1 v 0 out cs
             else if quad_pos = 1 then
               a2b_base64 2 (v mod 16) 0 (out @ [char_of (leftchar * 4 + v div 16)]) cs
             else if quad_pos = 2 then
               a2b_base64 3 (v mod 4) 0 (out @ [char_of (leftchar * 16 + v div 4)]) cs
             else a2b_base64 0 0 0 (out @ [char_of (leftchar * 64 + v)]) cs))"

definition b64decode_std :: "string \<Rightarrow> bytes option" where
  "b64decode_std s =
     (if list_ex (\<lambda>c. 128 \<le> (of_char c :: nat)) s then None else a2b_base64 0 0 0 [] s)"

definition st0 :: st where
  "st0 = \<lparr>trace = [], files = Map.empty, trees = Map.empty\<rparr>"

definition exits :: "int \<Rightarrow> procres" where
  "exits rc = \<lparr>returncode = rc, p_stdout = [], p_stderr = []\<rparr>"

text \<open>
  A world in which every command exits 0, the work tree is clean, the remote holds one
  file and \<open>dist\<close> is a directory with one file. Examples change single fields of it.
\<close>

definition world0 :: world where
  "world0 =
     \<lparr>w_exec = (\<lambda>h c. exits 0),
      w_b64decode = b64decode_std,
      w_key_path = ''/tmp/git_deploy_key_1'',
      w_mkstemp_ok = True,
      w_write_ok = True,
      w_close_ok = True,
      w_chmod_ok = True,
      w_tmp_dir = ''/tmp/deploy_clone_1'',
      w_clone_tree = [(''.git'', True), (''index.html'', False)],
      w_delete_ok = (\<lambda>e. True),
      w_path = (\<lambda>p. if p = ''dist'' then Directory [(''app.js'', False)] else Absent),
      w_copy_ok = (\<lambda>e. True),
      w_remove_ok = True,
      w_rmtree_ok = True,
      w_timestamp = ''2025-01-01T00:00:00Z'',
      w_now = 0,
      w_http = [],
      w_GIT_SSH_KEY = None,
      w_GIT_SSH_KEY_BASE64 = None,
      w_BACKEND_IM_TOKEN = None,
      w_GHCR_USER = None,
      w_GHCR_TOKEN = None\<rparr>"

definition args0 :: args where
  "args0 =
     \<lparr>a_remote = ''git@backend.im:org/app.git'',
      a_branch = ''main'',
      a_artifact_dir = None,
      a_commit_msg = None,
      a_allow_dirty = False,
      a_force = False,
      a_status_url = None,
      a_status_timeout = 300,
      a_skip_poll = False\<rparr>"

section \<open>Vocabulary of the claims\<close>



definition is_get :: "event \<Rightarrow> bool" where
  "is_get e = (case e of HttpGet _ _ \<Rightarrow> True | _ \<Rightarrow> False)"

definition polls :: "event list \<Rightarrow> nat" where
  "polls tr = length (filter is_get tr)"

fun last_seen :: "json option \<Rightarrow> response list \<Rightarrow> json option" where
  "last_seen seen [] = seen"
| "last_seen seen (RequestFailed # rs) = last_seen seen rs"
| "last_seen seen (Body j # rs) = last_seen (Some j) rs"

definition pending :: "response \<Rightarrow> bool" where
  "pending r = (case snd (poll_cycle r None) of Continue _ \<Rightarrow> True | _ \<Rightarrow> False)"

text \<open>
  The time the cycles of a script take: each its own delay and the sleep. The poll
  numbered \<open>m\<close> (from 0) starts \<open>elapsed interval (take m script)\<close> after the first.
\<close>

definition elapsed :: "int \<Rightarrow> (rat \<times> response) list \<Rightarrow> rat" where
  "elapsed interval xs = sum_list (map (\<lambda>x. fst x + of_int interval) xs)"

text \<open>The file-system calls of the materializer all succeed.\<close>

definition materializer_ok :: "world \<Rightarrow> bool" where
  "materializer_ok w = (w_mkstemp_ok w \<and> w_write_ok w \<and> w_close_ok w \<and> w_chmod_ok w)"

fun exec_of :: "event \<Rightarrow> (invocation \<times> int) option" where
  "exec_of (Exec c rc) = Some (c, rc)"
| "exec_of _ = None"

definition execs :: "event list \<Rightarrow> (invocation \<times> int) list" where
  "execs tr = List.map_filter exec_of tr"

text \<open>
  The steps of the orchestration as they show in the trace: creating the credential
  file, the work-tree check, the commands that prepare the clone, the commands of the
  push (registering and removing the temporary remote included) and the status requests.
\<close>

datatype phase = Materialize | Validate | Prepare | Push | Poll

definition cmd_phase :: "cmd \<Rightarrow> phase option" where
  "cmd_phase c =
     (case c of
        Argv (g # sub # rest) \<Rightarrow>
          if sub = ''status'' then Some Validate
          else if sub \<in> set [''clone'', ''checkout'', ''add'', ''commit''] then Some Prepare
          else if sub \<in> set [''remote'', ''push''] then Some Push
          else None
      | _ \<Rightarrow> None)"

fun phase_of :: "event \<Rightarrow> phase option" where
  "phase_of (MkSTemp p) = Some Materialize"
| "phase_of (Exec c rc) = cmd_phase (inv_cmd c)"
| "phase_of (HttpGet u hs) = Some Poll"
| "phase_of _ = None"

definition phases :: "event list \<Rightarrow> phase list" where
  "phases tr = List.map_filter phase_of tr"

text \<open>The order in which the code runs the steps, and the order the specification states.\<close>

fun code_rank :: "phase \<Rightarrow> nat" where
  "code_rank Materialize = 0"
| "code_rank Validate = 1"
| "code_rank Prepare = 2"
| "code_rank Push = 3"
| "code_rank Poll = 4"

fun claimed_rank :: "phase \<Rightarrow> nat" where
  "claimed_rank Validate = 0"
| "claimed_rank Materialize = 1"
| "claimed_rank Prepare = 2"
| "claimed_rank Push = 3"
| "claimed_rank Poll = 4"

fun local_event :: "event \<Rightarrow> bool" where
  "local_event (MkSTemp p) = False"
| "local_event (HttpGet u hs) = False"
| "local_event _ = True"

text \<open>
  Example worlds: one in which the git subcommand \<open>sub\<close> exits \<open>rc\<close> and every other
  command exits 0, and one in which \<open>git status --porcelain\<close> reports a modified file.
\<close>

definition failing :: "string \<Rightarrow> int \<Rightarrow> event list \<Rightarrow> invocation \<Rightarrow> procres" where
  "failing sub rc h c =
     (case inv_cmd c of
        Argv (g # x # rest) \<Rightarrow> if x = sub then exits rc else exits 0
      | _ \<Rightarrow> exits 0)"

definition dirty_tree :: "event list \<Rightarrow> invocation \<Rightarrow> procres" where
  "dirty_tree h c =
     (if inv_cmd c = Argv [''git'', ''status'', ''--porcelain'']
      then \<lparr>returncode = 0, p_stdout = '' M a.txt'', p_stderr = []\<rparr>
      else exits 0)"

text \<open>A program that only appends events satisfying \<open>P\<close> to the trace.\<close>

definition only_emits :: "(event \<Rightarrow> bool) \<Rightarrow> 'a prog \<Rightarrow> bool" where
  "only_emits P m = (\<forall>s s' r. m s = (s', r) \<longrightarrow> (\<exists>evs. trace s' = trace s @ evs \<and> list_all P evs))"

section \<open>Status Poller: one cycle\<close>






lemma cycle_pending:
  "resolve_status d = JNull \<or> (\<exists>s. resolve_status d = JStr s \<and> py_lower s \<notin> set success_tokens \<and> py_lower s \<notin> set failure_tokens) \<Longrightarrow>
   snd (poll_cycle (Body (JObj d)) seen) = Continue (Some (JObj d))"
  by (auto simp add: poll_cycle_def Let_def)




section \<open>Status Poller: the loop\<close>

lemma polls_append: "polls (xs @ ys) = polls xs + polls ys"
  by (simp add: polls_def)

lemma poll_cycle_prints: "polls (fst (poll_cycle r seen)) = 0"
  by (auto simp: poll_cycle_def polls_def is_get_def Let_def split: response.splits json.splits)

lemma polls_cycle_events: "polls (HttpGet url hs # fst (poll_cycle r seen) @ extra) = Suc (polls extra)"
  using poll_cycle_prints[of r seen] by (simp add: polls_def is_get_def)

lemma ceil_step:
  fixes dl now d :: rat and iv :: int
  assumes "0 < iv" "now < dl" "0 \<le> d"
  shows "Suc (nat \<lceil>(dl - (now + d + of_int iv)) / of_int iv\<rceil>) \<le> nat \<lceil>(dl - now) / of_int iv\<rceil>"
proof -
  let ?i = "of_int iv :: rat"
  have ipos: "0 < ?i" using assms(1) by simp
  have "(dl - (now + d + ?i)) / ?i = (dl - now - d) / ?i - 1"
    using ipos by (simp add: field_simps)
  also have "\<dots> \<le> (dl - now) / ?i - 1"
    using ipos assms(3) by (simp add: divide_right_mono)
  finally have "\<lceil>(dl - (now + d + ?i)) / ?i\<rceil> \<le> \<lceil>(dl - now) / ?i - 1\<rceil>"
    by (rule ceiling_mono)
  then have le: "\<lceil>(dl - (now + d + ?i)) / ?i\<rceil> \<le> \<lceil>(dl - now) / ?i\<rceil> - 1"
    by simp
  have "0 < (dl - now) / ?i" using ipos assms(2) by simp
  then have "1 \<le> \<lceil>(dl - now) / ?i\<rceil>" by (simp add: ceiling_less_iff flip: not_less) 
  with le show ?thesis by linarith
qed

lemma poll_loop_bound:
  assumes "0 < iv" "\<forall>x\<in>set script. 0 \<le> fst x"
    and "poll_loop url hs iv dl now seen script s = Some (s', r)"
  shows "polls (trace s') \<le> polls (trace s) + nat \<lceil>(dl - now) / of_int iv\<rceil>"
  using assms
proof (induction script arbitrary: now seen s)
  case Nil
  then show ?case by (auto simp: emit_def polls_append polls_def is_get_def split: if_splits)
next
  case (Cons x script)
  obtain d resp where x: "x = (d, resp)" by (cases x)
  show ?case
  proof (cases "now < dl")
    case False
    with Cons.prems x show ?thesis
      by (auto simp: emit_def polls_append polls_def is_get_def)
  next
    case True
    obtain evs stp where pc: "poll_cycle resp seen = (evs, stp)" by (cases "poll_cycle resp seen")
    have evs: "polls evs = 0" using poll_cycle_prints[of resp seen] pc by simp
    have d0: "0 \<le> d" using Cons.prems(2) x by simp
    have one: "Suc 0 \<le> nat \<lceil>(dl - now) / of_int iv\<rceil>"
      using ceil_step[OF Cons.prems(1) True d0] by linarith
    show ?thesis
    proof (cases stp)
      case (Return j)
      with Cons.prems x True pc evs one show ?thesis
        by (auto simp: emits_def polls_append polls_def is_get_def)
    next
      case (Raise e)
      with Cons.prems x True pc evs one show ?thesis
        by (auto simp: emits_def polls_append polls_def is_get_def)
    next
      case (Continue seen')
      have rec: "poll_loop url hs iv dl (now + d + of_int iv) seen' script
                   (emits (HttpGet url hs # evs @ [Sleep iv]) s) = Some (s', r)"
        using Cons.prems x True pc Continue by simp
      have "polls (trace s') \<le> polls (trace (emits (HttpGet url hs # evs @ [Sleep iv]) s))
               + nat \<lceil>(dl - (now + d + of_int iv)) / of_int iv\<rceil>"
        using Cons.IH[OF Cons.prems(1) _ rec] Cons.prems(2) by simp
      moreover have "polls (trace (emits (HttpGet url hs # evs @ [Sleep iv]) s)) = Suc (polls (trace s))"
        using evs by (simp add: emits_def polls_append) (simp add: polls_def is_get_def)
      ultimately show ?thesis
        using ceil_step[OF Cons.prems(1) True d0] by linarith
    qed
  qed
qed


lemma ceil_zero:
  fixes dl now :: rat and iv :: int
  assumes "0 < iv" "nat \<lceil>(dl - now) / of_int iv\<rceil> = 0"
  shows "\<not> now < dl"
proof
  assume "now < dl"
  then have "0 < (dl - now) / (of_int iv :: rat)" using assms(1) by simp
  then have "0 < \<lceil>(dl - now) / (of_int iv :: rat)\<rceil>" by (simp add: less_ceiling_iff)
  with assms(2) show False by simp
qed

lemma poll_loop_returns:
  assumes "0 < iv" "\<forall>x\<in>set script. 0 \<le> fst x"
    and "nat \<lceil>(dl - now) / of_int iv\<rceil> \<le> length script"
  shows "\<exists>res. poll_loop url hs iv dl now seen script s = Some res"
  using assms
proof (induction script arbitrary: now seen s)
  case Nil
  then have "\<not> now < dl" using ceil_zero[of iv dl now] by simp
  then show ?case by simp
next
  case (Cons x script)
  obtain d resp where x: "x = (d, resp)" by (cases x)
  show ?case
  proof (cases "now < dl")
    case False
    with x show ?thesis by simp
  next
    case True
    obtain evs stp where pc: "poll_cycle resp seen = (evs, stp)" by (cases "poll_cycle resp seen")
    have d0: "0 \<le> d" using Cons.prems(2) x by simp
    show ?thesis
    proof (cases stp)
      case (Continue seen')
      have "nat \<lceil>(dl - (now + d + of_int iv)) / of_int iv\<rceil> \<le> length script"
        using ceil_step[OF Cons.prems(1) True d0] Cons.prems(3) by simp
      then obtain res where "poll_loop url hs iv dl (now + d + of_int iv) seen' script
                   (emits (HttpGet url hs # evs @ [Sleep iv]) s) = Some res"
        using Cons.IH[OF Cons.prems(1)] Cons.prems(2) by fastforce
      then show ?thesis using x True pc Continue Cons.prems(1) by simp
    qed (use x True pc in simp_all)
  qed
qed

lemma cycle_continue:
  "snd (poll_cycle resp seen) = Continue seen' \<Longrightarrow> last_seen seen (resp # rs) = last_seen seen' rs"
  by (cases resp) (auto simp: poll_cycle_def Let_def split: json.splits if_splits)

lemma pending_any: "pending r \<Longrightarrow> \<exists>seen'. snd (poll_cycle r seen) = Continue seen'"
  by (cases r) (auto simp: pending_def poll_cycle_def Let_def split: json.splits if_splits)

lemma poll_loop_pending:
  assumes "0 < iv" "\<forall>x\<in>set script. 0 \<le> fst x \<and> pending (snd x)"
    and "nat \<lceil>(dl - now) / of_int iv\<rceil> \<le> length script"
  shows "\<exists>s' x. poll_loop url hs iv dl now seen script s = Some (s', Inr (TimedOut x))"
  using assms
proof (induction script arbitrary: now seen s)
  case Nil
  then have "\<not> now < dl" using ceil_zero[of iv dl now] by simp
  then show ?case by simp
next
  case (Cons y script)
  obtain d resp where y: "y = (d, resp)" by (cases y)
  show ?case
  proof (cases "now < dl")
    case False
    with y show ?thesis by simp
  next
    case True
    have d0: "0 \<le> d" and pe: "pending resp" using Cons.prems(2) y by simp_all
    obtain seen' where "snd (poll_cycle resp seen) = Continue seen'" using pending_any[OF pe] by blast
    then obtain evs where pc: "poll_cycle resp seen = (evs, Continue seen')"
      by (cases "poll_cycle resp seen") simp
    have "nat \<lceil>(dl - (now + d + of_int iv)) / of_int iv\<rceil> \<le> length script"
      using ceil_step[OF Cons.prems(1) True d0] Cons.prems(3) by simp
    then obtain s' x where "poll_loop url hs iv dl (now + d + of_int iv) seen' script
                   (emits (HttpGet url hs # evs @ [Sleep iv]) s) = Some (s', Inr (TimedOut x))"
      using Cons.IH[OF Cons.prems(1)] Cons.prems(2) by fastforce
    then show ?thesis using y True pc Cons.prems(1) by simp
  qed
qed

lemma elapsed_Nil [simp]: "elapsed iv [] = 0"
  by (simp add: elapsed_def)

lemma elapsed_Cons [simp]: "elapsed iv (x # xs) = fst x + of_int iv + elapsed iv xs"
  by (simp add: elapsed_def)

lemma elapsed_exact:
  "\<forall>x\<in>set xs. fst x = 0 \<Longrightarrow> elapsed iv xs = of_nat (length xs) * of_int iv"
  by (induction xs) (simp_all add: algebra_simps)

lemma poll_cycle_verdict:
  "snd (poll_cycle r seen) = Return j \<Longrightarrow> snd (poll_cycle r None) = Return j"
  "snd (poll_cycle r seen) = Raise e \<Longrightarrow> snd (poll_cycle r None) = Raise e"
  "snd (poll_cycle r seen) = Continue c \<Longrightarrow> pending r"
  by (cases r; auto simp: pending_def poll_cycle_def Let_def split: json.splits if_splits)+

text \<open>
  What a returned loop has done: it polled as long as the deadline had not passed and
  the answers were pending, and it stopped at the first answer that returns or raises,
  or at the first check at or after the deadline.
\<close>

lemma poll_loop_exact:
  assumes "0 \<le> iv" and "poll_loop url hs iv dl now seen script s = Some (s', r)"
  shows "\<exists>n. n \<le> length script \<and> list_all (\<lambda>x. pending (snd x)) (take n script) \<and>
     (\<forall>m<n. now + elapsed iv (take m script) < dl) \<and>
     (case r of
        Inr (TimedOut x) \<Rightarrow>
          polls (trace s') = polls (trace s) + n \<and> dl \<le> now + elapsed iv (take n script) \<and>
          x = last_seen seen (map snd (take n script))
      | Inr (Finished j) \<Rightarrow>
          polls (trace s') = polls (trace s) + Suc n \<and> n < length script \<and>
          now + elapsed iv (take n script) < dl \<and>
          snd (poll_cycle (snd (script ! n)) None) = Return j
      | Inl e \<Rightarrow>
          polls (trace s') = polls (trace s) + Suc n \<and> n < length script \<and>
          now + elapsed iv (take n script) < dl \<and>
          snd (poll_cycle (snd (script ! n)) None) = Raise e)"
  using assms(2)
proof (induction script arbitrary: now seen s)
  case Nil
  then have "\<not> now < dl" "r = Inr (TimedOut seen)" "polls (trace s') = polls (trace s)"
    by (auto simp: emit_def polls_append polls_def is_get_def split: if_splits)
  then show ?case by (intro exI[of _ 0]) simp
next
  case (Cons y script)
  obtain d resp where y: "y = (d, resp)" by (cases y)
  show ?case
  proof (cases "now < dl")
    case False
    with Cons.prems y have "r = Inr (TimedOut seen)" "polls (trace s') = polls (trace s)"
      by (auto simp: emit_def polls_append polls_def is_get_def)
    with False show ?thesis by (intro exI[of _ 0]) simp
  next
    case True
    obtain evs stp where pc: "poll_cycle resp seen = (evs, stp)" by (cases "poll_cycle resp seen")
    have evs: "polls evs = 0" using poll_cycle_prints[of resp seen] pc by simp
    have cnt: "polls (trace (emits (HttpGet url hs # evs @ extra) s)) = Suc (polls (trace s)) + polls extra"
      for extra
      using evs by (simp add: emits_def polls_append) (simp add: polls_def is_get_def)
    show ?thesis
    proof (cases stp)
      case (Return j)
      with Cons.prems y True pc have "r = Inr (Finished j)"
        "s' = emits (HttpGet url hs # evs) s" by auto
      moreover have "snd (poll_cycle resp None) = Return j"
        using poll_cycle_verdict(1)[of resp seen j] pc Return by simp
      ultimately show ?thesis
        using True y cnt[of "[]"] by (intro exI[of _ 0]) (simp add: polls_def)
    next
      case (Raise e)
      with Cons.prems y True pc have "r = Inl e"
        "s' = emits (HttpGet url hs # evs) s" by auto
      moreover have "snd (poll_cycle resp None) = Raise e"
        using poll_cycle_verdict(2)[of resp seen e] pc Raise by simp
      ultimately show ?thesis
        using True y cnt[of "[]"] by (intro exI[of _ 0]) (simp add: polls_def)
    next
      case (Continue seen')
      let ?s1 = "emits (HttpGet url hs # evs @ [Sleep iv]) s"
      let ?now = "now + d + of_int iv"
      have rec: "poll_loop url hs iv dl ?now seen' script ?s1 = Some (s', r)"
        using Cons.prems y True pc Continue assms(1) by simp
      have pe: "pending resp" using poll_cycle_verdict(3)[of resp seen seen'] pc Continue by simp
      have c1: "polls (trace ?s1) = Suc (polls (trace s))"
        using cnt[of "[Sleep iv]"] by (simp add: polls_def is_get_def)
      have ls: "last_seen seen (resp # rs) = last_seen seen' rs" for rs
        using cycle_continue[of resp seen seen' rs] pc Continue by simp
      from Cons.IH[OF rec] obtain n where n:
        "n \<le> length script" "list_all (\<lambda>x. pending (snd x)) (take n script)"
        "\<forall>m<n. ?now + elapsed iv (take m script) < dl"
        "case r of
           Inr (TimedOut x) \<Rightarrow>
             polls (trace s') = polls (trace ?s1) + n \<and> dl \<le> ?now + elapsed iv (take n script) \<and>
             x = last_seen seen' (map snd (take n script))
         | Inr (Finished j) \<Rightarrow>
             polls (trace s') = polls (trace ?s1) + Suc n \<and> n < length script \<and>
             ?now + elapsed iv (take n script) < dl \<and>
             snd (poll_cycle (snd (script ! n)) None) = Return j
         | Inl e \<Rightarrow>
             polls (trace s') = polls (trace ?s1) + Suc n \<and> n < length script \<and>
             ?now + elapsed iv (take n script) < dl \<and>
             snd (poll_cycle (snd (script ! n)) None) = Raise e"
        by blast
      have before: "\<forall>m<Suc n. now + elapsed iv (take m (y # script)) < dl"
      proof (intro allI impI)
        fix m assume "m < Suc n"
        then show "now + elapsed iv (take m (y # script)) < dl"
          using True n(3) y by (cases m) (simp_all add: add.assoc)
      qed
      have res: "case r of
           Inr (TimedOut x) \<Rightarrow>
             polls (trace s') = polls (trace s) + Suc n \<and>
             dl \<le> now + elapsed iv (take (Suc n) (y # script)) \<and>
             x = last_seen seen (map snd (take (Suc n) (y # script)))
         | Inr (Finished j) \<Rightarrow>
             polls (trace s') = polls (trace s) + Suc (Suc n) \<and> Suc n < length (y # script) \<and>
             now + elapsed iv (take (Suc n) (y # script)) < dl \<and>
             snd (poll_cycle (snd ((y # script) ! Suc n)) None) = Return j
         | Inl e \<Rightarrow>
             polls (trace s') = polls (trace s) + Suc (Suc n) \<and> Suc n < length (y # script) \<and>
             now + elapsed iv (take (Suc n) (y # script)) < dl \<and>
             snd (poll_cycle (snd ((y # script) ! Suc n)) None) = Raise e"
      proof (cases r)
        case (Inl e)
        with n(4) c1 y show ?thesis by (simp add: add.assoc)
      next
        case (Inr v)
        show ?thesis
        proof (cases v)
          case (Finished j)
          with Inr n(4) c1 y show ?thesis by (simp add: add.assoc)
        next
          case (TimedOut x)
          with Inr n(4) c1 y ls[of "map snd (take n script)"] show ?thesis
            by (simp add: add.assoc)
        qed
      qed
      from n(1,2) pe y before res show ?thesis
        by (intro exI[of _ "Suc n"]) simp
    qed
  qed
qed

lemma exact_count:
  fixes t :: rat and i :: int and n :: nat
  assumes "0 < i" and "t \<le> of_nat n * of_int i"
    and "\<forall>m<n. of_nat m * of_int i < t"
  shows "n = nat \<lceil>t / of_int i\<rceil>"
proof -
  let ?i = "of_int i :: rat"
  have ipos: "0 < ?i" using assms(1) by simp
  from assms(2) ipos have "t / ?i \<le> of_nat n" by (simp add: pos_divide_le_eq)
  then have "t / ?i \<le> of_int (int n)" by simp
  then have up: "\<lceil>t / ?i\<rceil> \<le> int n" by (simp only: ceiling_le_iff)
  show ?thesis
  proof (cases n)
    case 0
    with up show ?thesis by simp
  next
    case (Suc k)
    with assms(3) have "of_nat k * ?i < t" by blast
    with ipos have "of_nat k < t / ?i" by (simp add: pos_less_divide_eq)
    then have "of_int (int k) < t / ?i" by simp
    then have "int k < \<lceil>t / ?i\<rceil>" by (simp only: less_ceiling_iff)
    with Suc up show ?thesis by linarith
  qed
qed

lemma poll_status_url_unfold:
  "\<exists>s1 hs. polls (trace s1) = polls (trace s) \<and>
     poll_status_url w url tok iv timeout s =
       (if float_overflow timeout then Some (s1, Inl (PyError ''OverflowError''))
        else poll_loop url hs iv (w_now w + of_int timeout) (w_now w) None (w_http w) s1)"
  by (intro exI[of _ "emit (Print [T ''Polling status URL: '', T url, T '' (timeout '', I timeout, T ''s)'']) s"]
        exI[of _ "case tok of None \<Rightarrow> []
                  | Some t \<Rightarrow> if t \<noteq> [] then [(''Authorization'', ''Bearer '' @ t)] else []"])
     (simp add: poll_status_url_def Let_def emit_def polls_def is_get_def)

lemma psu_bound:
  assumes "0 < iv" and "\<forall>x\<in>set (w_http w). 0 \<le> fst x"
    and "poll_status_url w url tok iv timeout s = Some (s', r)"
  shows "polls (trace s') \<le> polls (trace s) + nat \<lceil>(of_int timeout :: rat) / of_int iv\<rceil>"
proof -
  from poll_status_url_unfold[of s w url tok iv timeout] obtain s1 hs where
    u: "polls (trace s1) = polls (trace s)"
       "poll_status_url w url tok iv timeout s =
          (if float_overflow timeout then Some (s1, Inl (PyError ''OverflowError''))
           else poll_loop url hs iv (w_now w + of_int timeout) (w_now w) None (w_http w) s1)"
    by blast
  show ?thesis
  proof (cases "float_overflow timeout")
    case True
    with u assms(3) show ?thesis by simp
  next
    case False
    with u assms(3) have "poll_loop url hs iv (w_now w + of_int timeout) (w_now w) None (w_http w) s1
        = Some (s', r)" by simp
    from poll_loop_bound[OF assms(1,2) this] u(1) show ?thesis by simp
  qed
qed

lemma psu_returns:
  assumes "0 < iv" and "\<forall>x\<in>set (w_http w). 0 \<le> fst x"
    and "nat \<lceil>(of_int timeout :: rat) / of_int iv\<rceil> \<le> length (w_http w)"
  shows "\<exists>res. poll_status_url w url tok iv timeout s = Some res"
proof -
  from poll_status_url_unfold[of s w url tok iv timeout] obtain s1 hs where
    u: "poll_status_url w url tok iv timeout s =
          (if float_overflow timeout then Some (s1, Inl (PyError ''OverflowError''))
           else poll_loop url hs iv (w_now w + of_int timeout) (w_now w) None (w_http w) s1)"
    by blast
  from poll_loop_returns[OF assms(1,2), of "w_now w + of_int timeout" "w_now w" url hs None s1] assms(3)
  show ?thesis unfolding u by simp
qed

lemma psu_exact:
  assumes "0 < iv" and "poll_status_url w url tok iv timeout s = Some (s', r)"
  shows "(float_overflow timeout \<and> r = Inl (PyError ''OverflowError'') \<and>
          polls (trace s') = polls (trace s)) \<or>
     (\<exists>n. n \<le> length (w_http w) \<and> list_all (\<lambda>x. pending (snd x)) (take n (w_http w)) \<and>
        (\<forall>m<n. elapsed iv (take m (w_http w)) < of_int timeout) \<and>
        (case r of
           Inr (TimedOut x) \<Rightarrow>
             polls (trace s') = polls (trace s) + n \<and>
             of_int timeout \<le> elapsed iv (take n (w_http w)) \<and>
             x = last_seen None (map snd (take n (w_http w)))
         | Inr (Finished j) \<Rightarrow>
             polls (trace s') = polls (trace s) + Suc n \<and> n < length (w_http w) \<and>
             elapsed iv (take n (w_http w)) < of_int timeout \<and>
             snd (poll_cycle (snd (w_http w ! n)) None) = Return j
         | Inl e \<Rightarrow>
             polls (trace s') = polls (trace s) + Suc n \<and> n < length (w_http w) \<and>
             elapsed iv (take n (w_http w)) < of_int timeout \<and>
             snd (poll_cycle (snd (w_http w ! n)) None) = Raise e))"
proof -
  from poll_status_url_unfold[of s w url tok iv timeout] obtain s1 hs where
    u: "polls (trace s1) = polls (trace s)"
       "poll_status_url w url tok iv timeout s =
          (if float_overflow timeout then Some (s1, Inl (PyError ''OverflowError''))
           else poll_loop url hs iv (w_now w + of_int timeout) (w_now w) None (w_http w) s1)"
    by blast
  show ?thesis
  proof (cases "float_overflow timeout")
    case True
    with u assms(2) show ?thesis by simp
  next
    case False
    with u assms(2) have run:
      "poll_loop url hs iv (w_now w + of_int timeout) (w_now w) None (w_http w) s1 = Some (s', r)"
      by simp
    have iv0: "0 \<le> iv" using assms(1) by simp
    from poll_loop_exact[OF iv0 run] obtain n where n:
      "n \<le> length (w_http w)" "list_all (\<lambda>x. pending (snd x)) (take n (w_http w))"
      "\<forall>m<n. w_now w + elapsed iv (take m (w_http w)) < w_now w + of_int timeout"
      "case r of
         Inr (TimedOut x) \<Rightarrow>
           polls (trace s') = polls (trace s1) + n \<and>
           w_now w + of_int timeout \<le> w_now w + elapsed iv (take n (w_http w)) \<and>
           x = last_seen None (map snd (take n (w_http w)))
       | Inr (Finished j) \<Rightarrow>
           polls (trace s') = polls (trace s1) + Suc n \<and> n < length (w_http w) \<and>
           w_now w + elapsed iv (take n (w_http w)) < w_now w + of_int timeout \<and>
           snd (poll_cycle (snd (w_http w ! n)) None) = Return j
       | Inl e \<Rightarrow>
           polls (trace s') = polls (trace s1) + Suc n \<and> n < length (w_http w) \<and>
           w_now w + elapsed iv (take n (w_http w)) < w_now w + of_int timeout \<and>
           snd (poll_cycle (snd (w_http w ! n)) None) = Raise e"
      by blast
    have "case r of
           Inr (TimedOut x) \<Rightarrow>
             polls (trace s') = polls (trace s) + n \<and>
             of_int timeout \<le> elapsed iv (take n (w_http w)) \<and>
             x = last_seen None (map snd (take n (w_http w)))
         | Inr (Finished j) \<Rightarrow>
             polls (trace s') = polls (trace s) + Suc n \<and> n < length (w_http w) \<and>
             elapsed iv (take n (w_http w)) < of_int timeout \<and>
             snd (poll_cycle (snd (w_http w ! n)) None) = Return j
         | Inl e \<Rightarrow>
             polls (trace s') = polls (trace s) + Suc n \<and> n < length (w_http w) \<and>
             elapsed iv (take n (w_http w)) < of_int timeout \<and>
             snd (poll_cycle (snd (w_http w ! n)) None) = Raise e"
    proof (cases r)
      case (Inl e)
      with n(4) u(1) show ?thesis by simp
    next
      case (Inr v)
      with n(4) u(1) show ?thesis by (cases v) simp_all
    qed
    with n(1,2,3) show ?thesis by (intro disjI2 exI[of _ n]) simp
  qed
qed

lemma psu_pending:
  assumes "0 < iv" and "\<forall>x\<in>set (w_http w). 0 \<le> fst x \<and> pending (snd x)"
    and "\<not> float_overflow timeout"
    and "nat \<lceil>(of_int timeout :: rat) / of_int iv\<rceil> \<le> length (w_http w)"
  shows "\<exists>s' x. poll_status_url w url tok iv timeout s = Some (s', Inr (TimedOut x))"
proof -
  from poll_status_url_unfold[of s w url tok iv timeout] obtain s1 hs where
    u: "poll_status_url w url tok iv timeout s =
          (if float_overflow timeout then Some (s1, Inl (PyError ''OverflowError''))
           else poll_loop url hs iv (w_now w + of_int timeout) (w_now w) None (w_http w) s1)"
    by blast
  from poll_loop_pending[OF assms(1,2), of "w_now w + of_int timeout" "w_now w" url hs None s1]
    assms(3,4)
  show ?thesis unfolding u by simp
qed

lemma psu_exact_sleeps:
  assumes iv: "0 < iv" and z: "\<forall>x\<in>set (w_http w). fst x = 0 \<and> pending (snd x)"
    and nof: "\<not> float_overflow timeout"
    and len: "nat \<lceil>(of_int timeout :: rat) / of_int iv\<rceil> \<le> length (w_http w)"
  shows "\<exists>s'. poll_status_url w url tok iv timeout s =
            Some (s', Inr (TimedOut (last_seen None
               (map snd (take (nat \<lceil>(of_int timeout :: rat) / of_int iv\<rceil>) (w_http w)))))) \<and>
          polls (trace s') = polls (trace s) + nat \<lceil>(of_int timeout :: rat) / of_int iv\<rceil>"
proof -
  from z have dp: "\<forall>x\<in>set (w_http w). 0 \<le> fst x \<and> pending (snd x)" by simp
  from psu_pending[OF iv dp nof len] obtain s' x where
    run: "poll_status_url w url tok iv timeout s = Some (s', Inr (TimedOut x))" by blast
  from psu_exact[OF iv run] nof obtain n where n:
    "n \<le> length (w_http w)" "\<forall>m<n. elapsed iv (take m (w_http w)) < of_int timeout"
    "polls (trace s') = polls (trace s) + n"
    "of_int timeout \<le> elapsed iv (take n (w_http w))"
    "x = last_seen None (map snd (take n (w_http w)))"
    by auto
  have el: "elapsed iv (take m (w_http w)) = of_nat m * of_int iv" if "m \<le> n" for m
  proof -
    have "\<forall>x\<in>set (take m (w_http w)). fst x = 0" using z by (auto dest: in_set_takeD)
    from elapsed_exact[OF this] that n(1) show ?thesis by (simp add: min_def)
  qed
  have "n = nat \<lceil>(of_int timeout :: rat) / of_int iv\<rceil>"
  proof (rule exact_count[OF iv])
    show "(of_int timeout :: rat) \<le> of_nat n * of_int iv" using n(4) el[of n] by simp
    show "\<forall>m<n. of_nat m * of_int iv < (of_int timeout :: rat)"
      using n(2) el by (metis less_imp_le_nat)
  qed
  with run n(3,5) show ?thesis by simp
qed

text \<open>
  C5. With a positive interval and a clock that does not run backwards (every request
  and sleep takes at least the time asked for), the poller makes at most
  ceil(timeout / interval) requests and returns once the endpoint has answered that
  often. It makes a request at every check before the deadline as long as the answers
  are pending: a TimedOut return means that the last check was at or after the deadline
  and every earlier one before it, and it carries the payload of the last decoded
  answer polled (or none); a Finished return or an error comes from the first answer
  that is not pending. With sleeps of exactly the interval, answers that never resolve
  end in TimedOut after exactly ceil(timeout / interval) requests (2 for timeout 6 and
  interval 3). After a TimedOut return \<open>main\<close> returns normally, with exit status 0.
\<close>

theorem poll_status_url_bounded:
  "0 < interval \<Longrightarrow> \<forall>x\<in>set (w_http w). 0 \<le> fst x \<Longrightarrow>
   (\<forall>s' r. poll_status_url w url tok interval timeout s = Some (s', r) \<longrightarrow>
      polls (trace s') \<le> polls (trace s) + nat \<lceil>(of_int timeout :: rat) / of_int interval\<rceil>) \<and>
   (nat \<lceil>(of_int timeout :: rat) / of_int interval\<rceil> \<le> length (w_http w) \<longrightarrow>
      (\<exists>res. poll_status_url w url tok interval timeout s = Some res)) \<and>
   (\<forall>s' x. poll_status_url w url tok interval timeout s = Some (s', Inr (TimedOut x)) \<longrightarrow>
      (\<exists>n. n \<le> length (w_http w) \<and> polls (trace s') = polls (trace s) + n \<and>
           list_all (\<lambda>y. pending (snd y)) (take n (w_http w)) \<and>
           (\<forall>m<n. elapsed interval (take m (w_http w)) < of_int timeout) \<and>
           of_int timeout \<le> elapsed interval (take n (w_http w)) \<and>
           x = last_seen None (map snd (take n (w_http w))))) \<and>
   (\<forall>s' j. poll_status_url w url tok interval timeout s = Some (s', Inr (Finished j)) \<longrightarrow>
      (\<exists>n. n < length (w_http w) \<and> polls (trace s') = polls (trace s) + Suc n \<and>
           list_all (\<lambda>y. pending (snd y)) (take n (w_http w)) \<and>
           (\<forall>m\<le>n. elapsed interval (take m (w_http w)) < of_int timeout) \<and>
           snd (poll_cycle (snd (w_http w ! n)) None) = Return j)) \<and>
   (\<forall>s' e. poll_status_url w url tok interval timeout s = Some (s', Inl e) \<longrightarrow>
      (float_overflow timeout \<and> e = PyError ''OverflowError'' \<and>
       polls (trace s') = polls (trace s)) \<or>
      (\<exists>n. n < length (w_http w) \<and> polls (trace s') = polls (trace s) + Suc n \<and>
           list_all (\<lambda>y. pending (snd y)) (take n (w_http w)) \<and>
           (\<forall>m\<le>n. elapsed interval (take m (w_http w)) < of_int timeout) \<and>
           snd (poll_cycle (snd (w_http w ! n)) None) = Raise e)) \<and>
   ((\<forall>x\<in>set (w_http w). pending (snd x)) \<and> \<not> float_overflow timeout \<and>
    nat \<lceil>(of_int timeout :: rat) / of_int interval\<rceil> \<le> length (w_http w) \<longrightarrow>
      (\<exists>s' x. poll_status_url w url tok interval timeout s = Some (s', Inr (TimedOut x)))) \<and>
   ((\<forall>x\<in>set (w_http w). fst x = 0 \<and> pending (snd x)) \<and> \<not> float_overflow timeout \<and>
    nat \<lceil>(of_int timeout :: rat) / of_int interval\<rceil> \<le> length (w_http w) \<longrightarrow>
      (\<exists>s'. poll_status_url w url tok interval timeout s =
              Some (s', Inr (TimedOut (last_seen None
                 (map snd (take (nat \<lceil>(of_int timeout :: rat) / of_int interval\<rceil>) (w_http w)))))) \<and>
            polls (trace s') =
              polls (trace s) + nat \<lceil>(of_int timeout :: rat) / of_int interval\<rceil>)) \<and>
   (\<forall>s1 kp s2 s3 x.
      (if str_truthy (git_ssh_key w) then write_ssh_key_if_provided w (git_ssh_key w) s
       else (s, Inr None)) = (s1, Inr kp) \<and>
      main_push w a kp s1 = (s2, Inr ()) \<and> str_truthy (a_status_url a) \<and> \<not> a_skip_poll a \<and>
      poll_status_url w (or_default (a_status_url a) []) (w_BACKEND_IM_TOKEN w) 3
        (a_status_timeout a) s2 = Some (s3, Inr (TimedOut x)) \<longrightarrow>
      main w a s = Some (main_finally w kp s3, Inr ()) \<and> exit_status (Inr ()) = 0)"
proof -
  assume iv: "0 < interval" and d: "\<forall>x\<in>set (w_http w). 0 \<le> fst x"
  have c1: "\<forall>s' r. poll_status_url w url tok interval timeout s = Some (s', r) \<longrightarrow>
      polls (trace s') \<le> polls (trace s) + nat \<lceil>(of_int timeout :: rat) / of_int interval\<rceil>"
    using psu_bound[OF iv d] by blast
  have c2: "nat \<lceil>(of_int timeout :: rat) / of_int interval\<rceil> \<le> length (w_http w) \<longrightarrow>
      (\<exists>res. poll_status_url w url tok interval timeout s = Some res)"
    using psu_returns[OF iv d] by blast
  have c3: "\<forall>s' x. poll_status_url w url tok interval timeout s = Some (s', Inr (TimedOut x)) \<longrightarrow>
      (\<exists>n. n \<le> length (w_http w) \<and> polls (trace s') = polls (trace s) + n \<and>
           list_all (\<lambda>y. pending (snd y)) (take n (w_http w)) \<and>
           (\<forall>m<n. elapsed interval (take m (w_http w)) < of_int timeout) \<and>
           of_int timeout \<le> elapsed interval (take n (w_http w)) \<and>
           x = last_seen None (map snd (take n (w_http w))))"
  proof (intro allI impI)
    fix s' x
    assume "poll_status_url w url tok interval timeout s = Some (s', Inr (TimedOut x))"
    from psu_exact[OF iv this]
    show "\<exists>n. n \<le> length (w_http w) \<and> polls (trace s') = polls (trace s) + n \<and>
           list_all (\<lambda>y. pending (snd y)) (take n (w_http w)) \<and>
           (\<forall>m<n. elapsed interval (take m (w_http w)) < of_int timeout) \<and>
           of_int timeout \<le> elapsed interval (take n (w_http w)) \<and>
           x = last_seen None (map snd (take n (w_http w)))"
      by auto
  qed
  have c4: "\<forall>s' j. poll_status_url w url tok interval timeout s = Some (s', Inr (Finished j)) \<longrightarrow>
      (\<exists>n. n < length (w_http w) \<and> polls (trace s') = polls (trace s) + Suc n \<and>
           list_all (\<lambda>y. pending (snd y)) (take n (w_http w)) \<and>
           (\<forall>m\<le>n. elapsed interval (take m (w_http w)) < of_int timeout) \<and>
           snd (poll_cycle (snd (w_http w ! n)) None) = Return j)"
  proof (intro allI impI)
    fix s' j
    assume "poll_status_url w url tok interval timeout s = Some (s', Inr (Finished j))"
    from psu_exact[OF iv this] obtain n where n:
      "list_all (\<lambda>x. pending (snd x)) (take n (w_http w))"
      "\<forall>m<n. elapsed interval (take m (w_http w)) < of_int timeout"
      "polls (trace s') = polls (trace s) + Suc n" "n < length (w_http w)"
      "elapsed interval (take n (w_http w)) < of_int timeout"
      "snd (poll_cycle (snd (w_http w ! n)) None) = Return j"
      by auto
    from n(2,5) have "\<forall>m\<le>n. elapsed interval (take m (w_http w)) < of_int timeout"
      by (auto simp: le_less)
    with n show "\<exists>n. n < length (w_http w) \<and> polls (trace s') = polls (trace s) + Suc n \<and>
           list_all (\<lambda>y. pending (snd y)) (take n (w_http w)) \<and>
           (\<forall>m\<le>n. elapsed interval (take m (w_http w)) < of_int timeout) \<and>
           snd (poll_cycle (snd (w_http w ! n)) None) = Return j"
      by blast
  qed
  have c5: "\<forall>s' e. poll_status_url w url tok interval timeout s = Some (s', Inl e) \<longrightarrow>
      (float_overflow timeout \<and> e = PyError ''OverflowError'' \<and>
       polls (trace s') = polls (trace s)) \<or>
      (\<exists>n. n < length (w_http w) \<and> polls (trace s') = polls (trace s) + Suc n \<and>
           list_all (\<lambda>y. pending (snd y)) (take n (w_http w)) \<and>
           (\<forall>m\<le>n. elapsed interval (take m (w_http w)) < of_int timeout) \<and>
           snd (poll_cycle (snd (w_http w ! n)) None) = Raise e)"
  proof (intro allI impI)
    fix s' e
    assume run: "poll_status_url w url tok interval timeout s = Some (s', Inl e)"
    from psu_exact[OF iv run] consider
      (over) "float_overflow timeout" "e = PyError ''OverflowError''"
             "polls (trace s') = polls (trace s)"
      | (raised) n where "list_all (\<lambda>x. pending (snd x)) (take n (w_http w))"
          "\<forall>m<n. elapsed interval (take m (w_http w)) < of_int timeout"
          "polls (trace s') = polls (trace s) + Suc n" "n < length (w_http w)"
          "elapsed interval (take n (w_http w)) < of_int timeout"
          "snd (poll_cycle (snd (w_http w ! n)) None) = Raise e"
      by auto
    then show "(float_overflow timeout \<and> e = PyError ''OverflowError'' \<and>
       polls (trace s') = polls (trace s)) \<or>
      (\<exists>n. n < length (w_http w) \<and> polls (trace s') = polls (trace s) + Suc n \<and>
           list_all (\<lambda>y. pending (snd y)) (take n (w_http w)) \<and>
           (\<forall>m\<le>n. elapsed interval (take m (w_http w)) < of_int timeout) \<and>
           snd (poll_cycle (snd (w_http w ! n)) None) = Raise e)"
    proof cases
      case over
      then show ?thesis by blast
    next
      case raised
      from raised(2,5) have "\<forall>m\<le>n. elapsed interval (take m (w_http w)) < of_int timeout"
        by (auto simp: le_less)
      with raised show ?thesis by blast
    qed
  qed
  have c6: "(\<forall>x\<in>set (w_http w). pending (snd x)) \<and> \<not> float_overflow timeout \<and>
    nat \<lceil>(of_int timeout :: rat) / of_int interval\<rceil> \<le> length (w_http w) \<longrightarrow>
      (\<exists>s' x. poll_status_url w url tok interval timeout s = Some (s', Inr (TimedOut x)))"
    using psu_pending[OF iv, of w timeout url tok s] d by blast
  have c7: "(\<forall>x\<in>set (w_http w). fst x = 0 \<and> pending (snd x)) \<and> \<not> float_overflow timeout \<and>
    nat \<lceil>(of_int timeout :: rat) / of_int interval\<rceil> \<le> length (w_http w) \<longrightarrow>
      (\<exists>s'. poll_status_url w url tok interval timeout s =
              Some (s', Inr (TimedOut (last_seen None
                 (map snd (take (nat \<lceil>(of_int timeout :: rat) / of_int interval\<rceil>) (w_http w)))))) \<and>
            polls (trace s') =
              polls (trace s) + nat \<lceil>(of_int timeout :: rat) / of_int interval\<rceil>)"
    using psu_exact_sleeps[OF iv, of w timeout url tok s] by blast
  have c8: "\<forall>s1 kp s2 s3 x.
      (if str_truthy (git_ssh_key w) then write_ssh_key_if_provided w (git_ssh_key w) s
       else (s, Inr None)) = (s1, Inr kp) \<and>
      main_push w a kp s1 = (s2, Inr ()) \<and> str_truthy (a_status_url a) \<and> \<not> a_skip_poll a \<and>
      poll_status_url w (or_default (a_status_url a) []) (w_BACKEND_IM_TOKEN w) 3
        (a_status_timeout a) s2 = Some (s3, Inr (TimedOut x)) \<longrightarrow>
      main w a s = Some (main_finally w kp s3, Inr ()) \<and> exit_status (Inr ()) = 0"
    by (simp add: main_def main_try_def main_poll_def exit_status_def)
  from c1 c2 c3 c4 c5 c6 c7 c8 show ?thesis by blast
qed

theorem poll_status_url_bounded_witness:
  "\<exists>s'. poll_status_url
          (world0\<lparr>w_http := [(0, Body (JObj [(''status'', JStr ''pending'')])), (0, RequestFailed)]\<rparr>)
          ''u'' None 3 6 st0 =
          Some (s', Inr (TimedOut (Some (JObj [(''status'', JStr ''pending'')])))) \<and>
        polls (trace s') = 2"
proof -
  let ?w = "world0\<lparr>w_http := [(0, Body (JObj [(''status'', JStr ''pending'')])), (0, RequestFailed)]\<rparr>"
  have h1: "(0::int) < 3" by simp
  have h2: "\<forall>x\<in>set (w_http ?w). 0 \<le> fst x" by simp
  have p1: "pending (Body (JObj [(''status'', JStr ''pending'')]))" by code_simp
  have p2: "pending RequestFailed" by code_simp
  have c: "nat \<lceil>(of_int 6 :: rat) / of_int 3\<rceil> = 2" by simp
  have f: "\<not> float_overflow 6" by (simp add: float_overflow_def)
  note T = poll_status_url_bounded[OF h1 h2, of "''u''" None 6 st0 args0]
  from T p1 p2 c f obtain s' where
    "poll_status_url ?w ''u'' None 3 6 st0 =
       Some (s', Inr (TimedOut (last_seen None (map snd (take 2 (w_http ?w))))))"
    "polls (trace s') = polls (trace st0) + 2"
    by auto
  then show ?thesis by (auto simp: st0_def polls_def)
qed

section \<open>Running commands in sequence\<close>

lemma execs_simps [simp]:
  "execs [] = []"
  "execs (Exec c rc # es) = (c, rc) # execs es"
  "execs (Print ps # es) = execs es"
  "execs (HttpGet u hs # es) = execs es"
  "execs (Sleep n # es) = execs es"
  "execs (MkSTemp p # es) = execs es"
  "execs (WriteFile p b # es) = execs es"
  "execs (Chmod p m # es) = execs es"
  "execs (RemoveFile p # es) = execs es"
  "execs (MkDTemp p # es) = execs es"
  "execs (RmTree p # es) = execs es"
  "execs (DeleteEntry p e # es) = execs es"
  "execs (CopyEntry p e # es) = execs es"
  by (simp_all add: execs_def List.map_filter_simps)

lemma execs_append [simp]: "execs (xs @ ys) = execs xs @ execs ys"
  by (simp add: execs_def List.map_filter_def)

lemma seqE:
  assumes "seq m f s = (s', r)"
  obtains (raised) e where "m s = (s', Inl e)" and "r = Inl e"
  | (went_on) s1 v where "m s = (s1, Inr v)" and "f v s1 = (s', r)"
  using assms by (auto simp: seq_def split: prod.splits sum.splits)

lemma run_Inl:
  "run w c chk s = (s', Inl e) \<Longrightarrow>
   \<exists>rc a b. chk \<and> rc \<noteq> 0 \<and> e = CommandFailed (display (inv_cmd c)) rc \<and>
     trace s' = trace s @ [Print [T (''$ '' @ display (inv_cmd c))], Exec c rc, Print [T a], Print [T b]] \<and>
     files s' = files s \<and> trees s' = trees s"
  by (auto simp: run_def Let_def emit_def emits_def split: if_splits)

lemma run_Inr:
  "run w c chk s = (s', Inr v) \<Longrightarrow>
   \<exists>rc. (chk \<longrightarrow> rc = 0) \<and> returncode v = rc \<and>
     trace s' = trace s @ [Print [T (''$ '' @ display (inv_cmd c))], Exec c rc] \<and>
     files s' = files s \<and> trees s' = trees s"
  by (auto simp: run_def Let_def emit_def emits_def split: if_splits)

lemma announce_ssh_Inr:
  "announce_ssh gsc s = (s', r) \<Longrightarrow>
   r = Inr () \<and> (\<exists>ps. trace s' = trace s @ map Print ps) \<and> files s' = files s \<and> trees s' = trees s"
proof (cases gsc)
  case None
  assume "announce_ssh gsc s = (s', r)"
  with None have "s' = s" "r = Inr ()" by (simp_all add: announce_ssh_def)
  then show ?thesis by (auto intro: exI[of _ "[]"])
next
  case (Some g)
  assume "announce_ssh gsc s = (s', r)"
  with Some have "s' = emit (Print [T (''Using GIT_SSH_COMMAND='' @ g)]) s" "r = Inr ()"
    by (simp_all add: announce_ssh_def say_def)
  then show ?thesis by (auto simp: emit_def intro: exI[of _ "[[T (''Using GIT_SSH_COMMAND='' @ g)]]"])
qed

lemma say_Inr:
  "say ps s = (s', r) \<Longrightarrow>
   r = Inr () \<and> trace s' = trace s @ [Print ps] \<and> files s' = files s \<and> trees s' = trees s"
  by (auto simp: say_def emit_def)

lemma execs_prints [simp]: "execs (map Print ps) = []"
  by (induction ps) simp_all

section \<open>Push Executor: DirectHead\<close>

lemma remove_not_push: "remove_remote \<noteq> push_head branch force gsc"
  by (simp add: remove_remote_def push_head_def git_def with_force_def)

lemma add_not_push: "add_remote remote_url gsc \<noteq> push_head branch force gsc'"
  by (simp add: add_remote_def push_head_def git_def with_force_def)

text \<open>The commands a DirectHead push runs, in order, with their exit codes.\<close>

lemma git_push_current_head_execs:
  assumes "git_push_current_head w remote_url branch ssh_key_path force s = (s', r)"
  shows "\<exists>r1 r2 r3 r4.
     (r2 \<noteq> 0 \<and> r = Inl (CommandFailed (display (inv_cmd (add_remote remote_url (git_ssh_command ssh_key_path)))) r2) \<and>
      execs (trace s') = execs (trace s) @
        [(remove_remote, r1), (add_remote remote_url (git_ssh_command ssh_key_path), r2)]) \<or>
     (r3 \<noteq> 0 \<and> r = Inl (CommandFailed (display (inv_cmd (push_head branch force (git_ssh_command ssh_key_path)))) r3) \<and>
      execs (trace s') = execs (trace s) @
        [(remove_remote, r1), (add_remote remote_url (git_ssh_command ssh_key_path), 0),
         (push_head branch force (git_ssh_command ssh_key_path), r3)]) \<or>
     (r = Inr () \<and>
      execs (trace s') = execs (trace s) @
        [(remove_remote, r1), (add_remote remote_url (git_ssh_command ssh_key_path), 0),
         (push_head branch force (git_ssh_command ssh_key_path), 0), (remove_remote, r4)])"
proof -
  let ?g = "git_ssh_command ssh_key_path"
  from assms have "seq (announce_ssh ?g)
          (\<lambda>_. seq (run w remove_remote False)
          (\<lambda>_. seq (run w (add_remote remote_url ?g) True)
          (\<lambda>_. seq (run w (push_head branch force ?g) True)
          (\<lambda>_. seq (run w remove_remote False)
          (\<lambda>_ s. (s, Inr ())))))) s = (s', r)"
    by (simp add: git_push_current_head_def Let_def)
  then show ?thesis
  proof (cases rule: seqE)
    case (raised e)
    then show ?thesis using announce_ssh_Inr by blast
  next
    case (went_on sa v)
    from announce_ssh_Inr[OF went_on(1)] have ta: "execs (trace sa) = execs (trace s)" by auto
    from went_on(2) show ?thesis
    proof (cases rule: seqE)
      case (raised e)
      then show ?thesis using run_Inl by blast
    next
      case (went_on s1 v1)
      from run_Inr[OF went_on(1)] obtain r1 where
        t1: "execs (trace s1) = execs (trace s) @ [(remove_remote, r1)]" using ta by auto
      from went_on(2) show ?thesis
      proof (cases rule: seqE)
        case (raised e)
        from run_Inl[OF raised(1)] t1 raised(2) show ?thesis by auto
      next
        case (went_on s2 v2)
        from run_Inr[OF went_on(1)] t1 have
          t2: "execs (trace s2) = execs (trace s) @ [(remove_remote, r1), (add_remote remote_url ?g, 0)]"
          by auto
        from went_on(2) show ?thesis
        proof (cases rule: seqE)
          case (raised e)
          from run_Inl[OF raised(1)] t2 raised(2) show ?thesis by auto
        next
          case (went_on s3 v3)
          from run_Inr[OF went_on(1)] t2 have
            t3: "execs (trace s3) = execs (trace s) @ [(remove_remote, r1), (add_remote remote_url ?g, 0),
                   (push_head branch force ?g, 0)]"
            by auto
          from went_on(2) show ?thesis
          proof (cases rule: seqE)
            case (raised e)
            then show ?thesis using run_Inl by blast
          next
            case (went_on s4 v4)
            from run_Inr[OF went_on(1)] t3 went_on(2) show ?thesis by auto
          qed
        qed
      qed
    qed
  qed
qed

text \<open>
  What a DirectHead push does about the temporary remote: it is removed, by non-raising
  command execution, before it is registered, and again after the push when the push
  exits 0. When the push exits nonzero the run aborts with the command failure and the
  push is the last command run.
\<close>

lemma direct_head_removal:
  "trace s = [] \<Longrightarrow>
   git_push_current_head w remote_url branch ssh_key_path force s = (s', r) \<Longrightarrow>
   (\<exists>r1 r2. take 2 (execs (trace s')) =
       [(remove_remote, r1), (add_remote remote_url (git_ssh_command ssh_key_path), r2)]) \<and>
   (\<forall>rc. (push_head branch force (git_ssh_command ssh_key_path), rc) \<in> set (execs (trace s')) \<and> rc \<noteq> 0 \<longrightarrow>
      r = Inl (CommandFailed (display (inv_cmd (push_head branch force (git_ssh_command ssh_key_path)))) rc) \<and>
      last (execs (trace s')) = (push_head branch force (git_ssh_command ssh_key_path), rc)) \<and>
   ((push_head branch force (git_ssh_command ssh_key_path), 0) \<in> set (execs (trace s')) \<longrightarrow>
      r = Inr () \<and>
      (\<exists>r4. drop 2 (execs (trace s')) =
         [(push_head branch force (git_ssh_command ssh_key_path), 0), (remove_remote, r4)]))"
  using git_push_current_head_execs[of w remote_url branch ssh_key_path force s s' r]
    remove_not_push[of branch force "git_ssh_command ssh_key_path"]
    add_not_push[of remote_url "git_ssh_command ssh_key_path" branch force "git_ssh_command ssh_key_path"]
  by auto

lemma direct_head_removal_example:
  "last (execs (trace (fst (git_push_current_head (world0\<lparr>w_exec := failing ''push'' 1\<rparr>)
           ''url'' ''main'' None False st0)))) = (push_head ''main'' False None, 1)"
proof -
  let ?w = "world0\<lparr>w_exec := failing ''push'' 1\<rparr>"
  obtain s' r where run: "git_push_current_head ?w ''url'' ''main'' None False st0 = (s', r)"
    by force
  have h0: "trace st0 = []" by (simp add: st0_def)
  have g: "git_ssh_command None = None" by (simp add: git_ssh_command_def)
  have "(push_head ''main'' False None, 1) \<in>
          set (execs (trace (fst (git_push_current_head ?w ''url'' ''main'' None False st0))))"
    by code_simp
  with run have mem: "(push_head ''main'' False None, 1) \<in> set (execs (trace s'))" by simp
  from direct_head_removal[OF h0 run] mem g have
    "last (execs (trace s')) = (push_head ''main'' False None, 1)" by auto
  with run show ?thesis by simp
qed

text \<open>
  C2. In DirectHead mode the removal of the temporary remote is to be attempted, by
  non-raising command execution, also when the push fails. The code does not do so:
  with a push that exits 1 the commands run are the first removal, the registration and
  the push, and the run ends with the command failure; no removal of the temporary
  remote follows the push, and the remote stays registered.
\<close>

theorem failed_push_leaves_remote:
  "execs (trace (fst (git_push_current_head (world0\<lparr>w_exec := failing ''push'' 1\<rparr>)
           ''url'' ''main'' None False st0))) =
     [(remove_remote, 0), (add_remote ''url'' None, 0), (push_head ''main'' False None, 1)] \<and>
   snd (git_push_current_head (world0\<lparr>w_exec := failing ''push'' 1\<rparr>) ''url'' ''main'' None False st0) =
     Inl (CommandFailed ''git push backend_im_deploy HEAD:refs/heads/main'' 1)"
  by code_simp

section \<open>Payload Preparer and Push Executor: ArtifactDir\<close>

lemma drop_entry_frame [simp]:
  "trace (drop_entry tmp p s) = trace s" "files (drop_entry tmp p s) = files s"
  by (simp_all add: drop_entry_def split: option.splits)

lemma put_entry_frame [simp]:
  "trace (put_entry tmp p s) = trace s" "files (put_entry tmp p s) = files s"
  by (simp_all add: put_entry_def split: option.splits)

lemma emit_frame [simp]:
  "trace (emit e s) = trace s @ [e]" "files (emit e s) = files s" "trees (emit e s) = trees s"
  by (simp_all add: emit_def)

lemma clean_entries_facts:
  "clean_entries w tmp es s = (s', r) \<Longrightarrow>
   execs (trace s') = execs (trace s) \<and> files s' = files s \<and> set (trace s) \<subseteq> set (trace s') \<and>
   (r = Inr () \<or> r = Inl (PyError ''OSError'')) \<and>
   (r = Inr () \<longrightarrow>
      (\<forall>e\<in>set es. fst e \<noteq> ''.git'' \<longrightarrow> DeleteEntry tmp e \<in> set (trace s')) \<and>
      (\<forall>cur. trees s tmp = Some cur \<longrightarrow>
         trees s' tmp = Some (filter (\<lambda>e. fst e = ''.git'' \<or> fst e \<notin> fst ` set es) cur)))"
proof (induction es arbitrary: s)
  case Nil
  then show ?case by auto
next
  case (Cons p ps)
  show ?case
  proof (cases "fst p = ''.git''")
    case True
    with Cons.prems have "clean_entries w tmp ps s = (s', r)" by simp
    from Cons.IH[OF this] True show ?thesis
      by (auto intro!: filter_cong)
  next
    case False
    show ?thesis
    proof (cases "w_delete_ok w p")
      case no: False
      with False Cons.prems show ?thesis by auto
    next
      case True
      let ?s1 = "emit (DeleteEntry tmp p) (drop_entry tmp p s)"
      from False True Cons.prems have rec: "clean_entries w tmp ps ?s1 = (s', r)" by simp
      note ih = Cons.IH[OF rec]
      have tr: "\<And>cur. trees s tmp = Some cur \<Longrightarrow>
                 trees ?s1 tmp = Some (filter (\<lambda>e. fst e \<noteq> fst p) cur)"
        by (simp add: drop_entry_def)
      have "r = Inr () \<Longrightarrow> trees s tmp = Some cur \<Longrightarrow>
            trees s' tmp = Some (filter (\<lambda>e. fst e = ''.git'' \<or> fst e \<notin> fst ` set (p # ps)) cur)" for cur
      proof -
        assume ok: "r = Inr ()" and c: "trees s tmp = Some cur"
        from ih ok tr[OF c] have
          "trees s' tmp = Some (filter (\<lambda>e. fst e = ''.git'' \<or> fst e \<notin> fst ` set ps)
                                  (filter (\<lambda>e. fst e \<noteq> fst p) cur))"
          by blast
        also have "filter (\<lambda>e. fst e = ''.git'' \<or> fst e \<notin> fst ` set ps) (filter (\<lambda>e. fst e \<noteq> fst p) cur) =
                   filter (\<lambda>e. fst e = ''.git'' \<or> fst e \<notin> fst ` set (p # ps)) cur"
          using False by (auto intro!: filter_cong)
        finally show ?thesis .
      qed
      moreover have "r = Inr () \<Longrightarrow> \<forall>e\<in>set (p # ps). fst e \<noteq> ''.git'' \<longrightarrow> DeleteEntry tmp e \<in> set (trace s')"
        using ih by auto
      moreover have "execs (trace s') = execs (trace s)" "files s' = files s"
        "set (trace s) \<subseteq> set (trace s')" "r = Inr () \<or> r = Inl (PyError ''OSError'')"
        using ih by auto
      ultimately show ?thesis by blast
    qed
  qed
qed

lemma filter_git_only:
  "filter (\<lambda>e. fst e = ''.git'' \<or> fst e \<notin> fst ` set cur) cur = filter (\<lambda>e. fst e = ''.git'') cur"
  by (auto intro!: filter_cong)

lemma clean_worktree_facts:
  assumes "clean_worktree w tmp s = (s', r)"
  shows "execs (trace s') = execs (trace s) \<and> files s' = files s \<and> set (trace s) \<subseteq> set (trace s') \<and>
     (\<forall>d rc. r \<noteq> Inl (CommandFailed d rc)) \<and> (\<forall>x. r \<noteq> Inl (ArtifactDirMissing x)) \<and>
     (r = Inr () \<longrightarrow>
        (\<forall>cur. trees s tmp = Some cur \<longrightarrow>
           (\<forall>e\<in>set cur. fst e \<noteq> ''.git'' \<longrightarrow> DeleteEntry tmp e \<in> set (trace s')) \<and>
           trees s' tmp = Some (filter (\<lambda>e. fst e = ''.git'') cur)))"
proof (cases "trees s tmp")
  case None
  with assms show ?thesis by (auto simp: clean_worktree_def)
next
  case (Some cur)
  with assms have "clean_entries w tmp cur s = (s', r)" by (simp add: clean_worktree_def)
  from clean_entries_facts[OF this] Some show ?thesis
    by (auto simp: filter_git_only)
qed

lemma copy_items_facts:
  "copy_items w tmp items s = (s', r) \<Longrightarrow>
   execs (trace s') = execs (trace s) \<and> files s' = files s \<and> set (trace s) \<subseteq> set (trace s') \<and>
   (r = Inr () \<or> r = Inl (PyError ''OSError''))"
proof (induction items arbitrary: s)
  case Nil
  then show ?case by auto
next
  case (Cons item items)
  show ?case
  proof (cases "w_copy_ok w item")
    case True
    with Cons.prems have
      "copy_items w tmp items (emit (CopyEntry tmp item) (put_entry tmp item s)) = (s', r)" by simp
    from Cons.IH[OF this] show ?thesis by auto
  next
    case False
    with Cons.prems show ?thesis by auto
  qed
qed

lemma copy_artifact_facts:
  assumes "copy_artifact w artifact_dir tmp s = (s', r)"
  shows "execs (trace s') = execs (trace s) \<and> files s' = files s \<and> set (trace s) \<subseteq> set (trace s') \<and>
     (\<forall>d rc. r \<noteq> Inl (CommandFailed d rc)) \<and>
     (\<forall>x. r = Inl (ArtifactDirMissing x) \<longrightarrow> x = artifact_dir \<and> w_path w artifact_dir = Absent \<and> s' = s)"
proof (cases "w_path w artifact_dir")
  case Absent
  with assms show ?thesis by (auto simp: copy_artifact_def)
next
  case RegularFile
  with assms show ?thesis by (auto simp: copy_artifact_def)
next
  case (Directory items)
  with assms have "copy_items w tmp items
      (emit (Print [T (''Copying artifact from '' @ artifact_dir @ '' to temp repo...'')]) s) = (s', r)"
    by (simp add: copy_artifact_def)
  from copy_items_facts[OF this] show ?thesis by auto
qed

lemma run_execs_Inl:
  "run w c chk s = (s', Inl e) \<Longrightarrow>
   \<exists>rc. chk \<and> rc \<noteq> 0 \<and> e = CommandFailed (display (inv_cmd c)) rc \<and>
        execs (trace s') = execs (trace s) @ [(c, rc)] \<and> set (trace s) \<subseteq> set (trace s') \<and>
        files s' = files s \<and> trees s' = trees s"
  by (drule run_Inl) auto

lemma run_execs_Inr:
  "run w c chk s = (s', Inr v) \<Longrightarrow>
   \<exists>rc. (chk \<longrightarrow> rc = 0) \<and> execs (trace s') = execs (trace s) @ [(c, rc)] \<and>
        set (trace s) \<subseteq> set (trace s') \<and> files s' = files s \<and> trees s' = trees s"
  by (drule run_Inr) auto

text \<open>How the \<open>try\<close> block can end, with the commands it has run by then.\<close>

lemma git_push_artifact_dir_try_execs:
  fixes w remote_url branch artifact_dir gsc commit_msg force tmp
  defines "c_clone \<equiv> clone_cmd remote_url tmp gsc"
    and "c_checkout \<equiv> checkout_cmd branch tmp gsc"
    and "c_add \<equiv> add_cmd tmp gsc"
    and "c_commit \<equiv> commit_cmd commit_msg tmp gsc"
    and "c_push \<equiv> push_origin branch force tmp gsc"
  assumes run: "git_push_artifact_dir_try w remote_url branch artifact_dir gsc commit_msg force tmp s = (s', r)"
  shows "files s' = files s \<and>
     ((\<exists>rc. rc \<noteq> 0 \<and> r = Inl (CommandFailed (display (inv_cmd c_clone)) rc) \<and>
           execs (trace s') = execs (trace s) @ [(c_clone, rc)]) \<or>
      (\<exists>rc. rc \<noteq> 0 \<and> r = Inl (CommandFailed (display (inv_cmd c_checkout)) rc) \<and>
           execs (trace s') = execs (trace s) @ [(c_clone, 0), (c_checkout, rc)]) \<or>
      ((\<forall>d rc. r \<noteq> Inl (CommandFailed d rc)) \<and> r \<noteq> Inr () \<and>
       execs (trace s') = execs (trace s) @ [(c_clone, 0), (c_checkout, 0)] \<and>
       (\<forall>x. r = Inl (ArtifactDirMissing x) \<longrightarrow>
          x = artifact_dir \<and> w_path w artifact_dir = Absent \<and>
          trees s' tmp = Some (filter (\<lambda>e. fst e = ''.git'') (w_clone_tree w)) \<and>
          (\<forall>e\<in>set (w_clone_tree w). fst e \<noteq> ''.git'' \<longrightarrow> DeleteEntry tmp e \<in> set (trace s')))) \<or>
      (\<exists>rc. rc \<noteq> 0 \<and> r = Inl (CommandFailed (display (inv_cmd c_add)) rc) \<and>
           execs (trace s') = execs (trace s) @ [(c_clone, 0), (c_checkout, 0), (c_add, rc)]) \<or>
      (\<exists>rcc rc. rc \<noteq> 0 \<and> r = Inl (CommandFailed (display (inv_cmd c_push)) rc) \<and>
           execs (trace s') = execs (trace s) @
             [(c_clone, 0), (c_checkout, 0), (c_add, 0), (c_commit, rcc), (c_push, rc)]) \<or>
      (\<exists>rcc. r = Inr () \<and>
           execs (trace s') = execs (trace s) @
             [(c_clone, 0), (c_checkout, 0), (c_add, 0), (c_commit, rcc), (c_push, 0)]))"
proof -
  from run have "seq (run w c_clone True)
     (\<lambda>_. seq (cloned w tmp)
     (\<lambda>_. seq (run w c_checkout True)
     (\<lambda>_. seq (clean_worktree w tmp)
     (\<lambda>_. seq (copy_artifact w artifact_dir tmp)
     (\<lambda>_. seq (run w c_add True)
     (\<lambda>_. seq (run w c_commit False)
     (\<lambda>_. seq (run w c_push True)
     (\<lambda>_ s. (s, Inr ()))))))))) s = (s', r)"
    by (simp add: git_push_artifact_dir_try_def c_clone_def c_checkout_def c_add_def c_commit_def c_push_def)
  then show ?thesis
  proof (cases rule: seqE)
    case (raised e)
    from run_execs_Inl[OF raised(1)] raised(2) show ?thesis by auto
  next
    case (went_on s1 v1)
    from run_execs_Inr[OF went_on(1)] have
      t1: "execs (trace s1) = execs (trace s) @ [(c_clone, 0)]" and f1: "files s1 = files s"
      by auto
    from went_on(2) show ?thesis
    proof (cases rule: seqE)
      case (raised e)
      then show ?thesis by (simp add: cloned_def)
    next
      case (went_on s2 v2)
      then have s2: "trace s2 = trace s1" "files s2 = files s1" "trees s2 tmp = Some (w_clone_tree w)"
        by (auto simp: cloned_def)
      from went_on(2) show ?thesis
      proof (cases rule: seqE)
        case (raised e)
        from run_execs_Inl[OF raised(1)] raised(2) t1 f1 s2 show ?thesis by auto
      next
        case (went_on s3 v3)
        from run_execs_Inr[OF went_on(1)] t1 f1 s2 have
          t3: "execs (trace s3) = execs (trace s) @ [(c_clone, 0), (c_checkout, 0)]"
          and f3: "files s3 = files s" and tr3: "trees s3 tmp = Some (w_clone_tree w)"
          by auto
        from went_on(2) show ?thesis
        proof (cases rule: seqE)
          case (raised e)
          from clean_worktree_facts[OF raised(1)] raised(2) t3 f3 show ?thesis by auto
        next
          case (went_on s4 v4)
          from clean_worktree_facts[OF went_on(1)] t3 f3 tr3 have
            t4: "execs (trace s4) = execs (trace s) @ [(c_clone, 0), (c_checkout, 0)]"
            and f4: "files s4 = files s"
            and tr4: "trees s4 tmp = Some (filter (\<lambda>e. fst e = ''.git'') (w_clone_tree w))"
            and d4: "\<forall>e\<in>set (w_clone_tree w). fst e \<noteq> ''.git'' \<longrightarrow> DeleteEntry tmp e \<in> set (trace s4)"
            by auto
          from went_on(2) show ?thesis
          proof (cases rule: seqE)
            case (raised e)
            from copy_artifact_facts[OF raised(1)] have
              c: "execs (trace s') = execs (trace s4)" "files s' = files s4"
                 "\<forall>d rc. Inl e \<noteq> (Inl (CommandFailed d rc) :: exc + unit)"
                 "\<forall>x. (Inl e :: exc + unit) = Inl (ArtifactDirMissing x) \<longrightarrow>
                      x = artifact_dir \<and> w_path w artifact_dir = Absent \<and> s' = s4"
              by blast+
            have third: "(\<forall>d rc. r \<noteq> Inl (CommandFailed d rc)) \<and> r \<noteq> Inr () \<and>
               execs (trace s') = execs (trace s) @ [(c_clone, 0), (c_checkout, 0)] \<and>
               (\<forall>x. r = Inl (ArtifactDirMissing x) \<longrightarrow>
                  x = artifact_dir \<and> w_path w artifact_dir = Absent \<and>
                  trees s' tmp = Some (filter (\<lambda>e. fst e = ''.git'') (w_clone_tree w)) \<and>
                  (\<forall>e\<in>set (w_clone_tree w). fst e \<noteq> ''.git'' \<longrightarrow> DeleteEntry tmp e \<in> set (trace s')))"
              using c raised(2) t4 tr4 d4 by auto
            from c f4 have "files s' = files s" by simp
            with third show ?thesis by blast
          next
            case (went_on s5 v5)
            from copy_artifact_facts[OF went_on(1)] t4 f4 have
              t5: "execs (trace s5) = execs (trace s) @ [(c_clone, 0), (c_checkout, 0)]"
              and f5: "files s5 = files s"
              by auto
            from went_on(2) show ?thesis
            proof (cases rule: seqE)
              case (raised e)
              from run_execs_Inl[OF raised(1)] raised(2) t5 f5 show ?thesis by auto
            next
              case (went_on s6 v6)
              from run_execs_Inr[OF went_on(1)] t5 f5 have
                t6: "execs (trace s6) = execs (trace s) @ [(c_clone, 0), (c_checkout, 0), (c_add, 0)]"
                and f6: "files s6 = files s"
                by auto
              from went_on(2) show ?thesis
              proof (cases rule: seqE)
                case (raised e)
                from run_execs_Inl[OF raised(1)] show ?thesis by simp
              next
                case (went_on s7 v7)
                from run_execs_Inr[OF went_on(1)] t6 f6 obtain rcc where
                  t7: "execs (trace s7) = execs (trace s) @
                         [(c_clone, 0), (c_checkout, 0), (c_add, 0), (c_commit, rcc)]"
                  and f7: "files s7 = files s"
                  by auto
                from went_on(2) show ?thesis
                proof (cases rule: seqE)
                  case (raised e)
                  from run_execs_Inl[OF raised(1)] raised(2) t7 f7 show ?thesis by auto
                next
                  case (went_on s8 v8)
                  from run_execs_Inr[OF went_on(1)] went_on(2) t7 f7 show ?thesis by auto
                qed
              qed
            qed
          qed
        qed
      qed
    qed
  qed
qed

lemma remove_clone_facts:
  "execs (trace (remove_clone w tmp s)) = execs (trace s)"
  "files (remove_clone w tmp s) = files s"
  "set (trace s) \<subseteq> set (trace (remove_clone w tmp s))"
  "w_rmtree_ok w \<Longrightarrow> trees (remove_clone w tmp s) tmp = None"
  by (auto simp: remove_clone_def Let_def)

text \<open>The function is the prologue, the \<open>try\<close> block and the removal of the clone.\<close>

lemma git_push_artifact_dir_unfold:
  assumes "git_push_artifact_dir w remote_url branch artifact_dir ssh_key_path commit_msg force s = (s', r)"
  shows "\<exists>s1 s2. execs (trace s1) = execs (trace s) \<and> files s1 = files s \<and>
           MkDTemp (w_tmp_dir w) \<in> set (trace s1) \<and> trees s1 (w_tmp_dir w) = Some [] \<and>
           git_push_artifact_dir_try w remote_url branch artifact_dir (git_ssh_command ssh_key_path)
             commit_msg force (w_tmp_dir w) s1 = (s2, r) \<and>
           s' = remove_clone w (w_tmp_dir w) s2"
proof -
  let ?g = "git_ssh_command ssh_key_path"
  from assms have "seq (announce_ssh ?g)
          (\<lambda>_. seq (mkdtemp w)
          (\<lambda>tmp. seq (say [T (''Cloning remote into tempdir '' @ tmp @ '' ...'')])
          (\<lambda>_. try_finally
                  (git_push_artifact_dir_try w remote_url branch artifact_dir ?g commit_msg force tmp)
                  (remove_clone w tmp)))) s = (s', r)"
    by (simp add: git_push_artifact_dir_def Let_def)
  then show ?thesis
  proof (cases rule: seqE)
    case (raised e)
    then show ?thesis using announce_ssh_Inr by blast
  next
    case (went_on sa v)
    from announce_ssh_Inr[OF went_on(1)] have
      a: "execs (trace sa) = execs (trace s)" "files sa = files s" by auto
    from went_on(2) show ?thesis
    proof (cases rule: seqE)
      case (raised e)
      then show ?thesis by (simp add: mkdtemp_def)
    next
      case (went_on sb tmp)
      then have b: "tmp = w_tmp_dir w" "execs (trace sb) = execs (trace sa)" "files sb = files sa"
        "MkDTemp (w_tmp_dir w) \<in> set (trace sb)" "trees sb (w_tmp_dir w) = Some []"
        by (auto simp: mkdtemp_def)
      from went_on(2) show ?thesis
      proof (cases rule: seqE)
        case (raised e)
        then show ?thesis using say_Inr by blast
      next
        case (went_on sc u)
        from say_Inr[OF went_on(1)] b a have
          c: "execs (trace sc) = execs (trace s)" "files sc = files s"
             "MkDTemp (w_tmp_dir w) \<in> set (trace sc)" "trees sc (w_tmp_dir w) = Some []"
          by auto
        obtain s2 r2 where t: "git_push_artifact_dir_try w remote_url branch artifact_dir ?g
             commit_msg force (w_tmp_dir w) sc = (s2, r2)"
          by force
        with went_on(2) b(1) have "s' = remove_clone w (w_tmp_dir w) s2" "r = r2"
          by (simp_all add: try_finally_def)
        with t c show ?thesis by blast
      qed
    qed
  qed
qed

section \<open>What the push phase appends to the trace\<close>

lemma only_emitsD:
  "only_emits P m \<Longrightarrow> m s = (s', r) \<Longrightarrow> \<exists>evs. trace s' = trace s @ evs \<and> list_all P evs"
  by (auto simp: only_emits_def)

lemma only_emits_seq:
  assumes "only_emits P m" and "\<And>v. only_emits P (f v)"
  shows "only_emits P (seq m f)"
  unfolding only_emits_def
proof (intro allI impI)
  fix s s' r
  assume "seq m f s = (s', r)"
  then show "\<exists>evs. trace s' = trace s @ evs \<and> list_all P evs"
  proof (cases rule: seqE)
    case (raised e)
    with assms(1) show ?thesis by (auto dest: only_emitsD)
  next
    case (went_on s1 v)
    from only_emitsD[OF assms(1) went_on(1)] obtain e1 where
      e1: "trace s1 = trace s @ e1" "list_all P e1" by blast
    from only_emitsD[OF assms(2) went_on(2)] obtain e2 where
      e2: "trace s' = trace s1 @ e2" "list_all P e2" by blast
    from e1 e2 have "trace s' = trace s @ (e1 @ e2)" "list_all P (e1 @ e2)" by simp_all
    then show ?thesis by blast
  qed
qed

lemma only_emits_return: "only_emits P (\<lambda>s. (s, r))"
  by (auto simp: only_emits_def intro: exI[of _ "[]"])

lemma only_emits_run: "only_emits local_event (run w c chk)"
  unfolding only_emits_def
proof (intro allI impI)
  fix s s' r
  assume a: "run w c chk s = (s', r)"
  show "\<exists>evs. trace s' = trace s @ evs \<and> list_all local_event evs"
  proof (cases r)
    case (Inl e)
    with a run_Inl[of w c chk s s' e] show ?thesis by auto
  next
    case (Inr v)
    with a run_Inr[of w c chk s s' v] show ?thesis by auto
  qed
qed

lemma only_emits_say: "only_emits local_event (say ps)"
  by (auto simp: only_emits_def say_def emit_def)

lemma only_emits_announce: "only_emits local_event (announce_ssh gsc)"
  by (cases gsc) (auto simp: only_emits_def announce_ssh_def say_def emit_def intro: exI[of _ "[]"])

lemma only_emits_mkdtemp: "only_emits local_event (mkdtemp w)"
  by (auto simp: only_emits_def mkdtemp_def emit_def)

lemma only_emits_cloned: "only_emits local_event (cloned w tmp)"
  by (auto simp: only_emits_def cloned_def intro: exI[of _ "[]"])

lemma clean_entries_appends:
  "clean_entries w tmp es s = (s', r) \<Longrightarrow> \<exists>evs. trace s' = trace s @ evs \<and> list_all local_event evs"
proof (induction es arbitrary: s)
  case Nil
  then show ?case by (auto intro: exI[of _ "[]"])
next
  case (Cons p ps)
  show ?case
  proof (cases "fst p \<noteq> ''.git'' \<and> w_delete_ok w p")
    case True
    with Cons.prems have
      "clean_entries w tmp ps (emit (DeleteEntry tmp p) (drop_entry tmp p s)) = (s', r)" by simp
    from Cons.IH[OF this] obtain evs where
      "trace s' = trace s @ (DeleteEntry tmp p # evs)" "list_all local_event (DeleteEntry tmp p # evs)"
      by auto
    then show ?thesis by blast
  next
    case False
    with Cons.prems Cons.IH[of s] show ?thesis
      by (cases "fst p = ''.git''") (auto intro: exI[of _ "[]"])
  qed
qed

lemma only_emits_clean: "only_emits local_event (clean_worktree w tmp)"
  unfolding only_emits_def clean_worktree_def
  by (auto split: option.splits dest: clean_entries_appends intro: exI[of _ "[]"])

lemma copy_items_appends:
  "copy_items w tmp items s = (s', r) \<Longrightarrow> \<exists>evs. trace s' = trace s @ evs \<and> list_all local_event evs"
proof (induction items arbitrary: s)
  case Nil
  then show ?case by (auto intro: exI[of _ "[]"])
next
  case (Cons item items)
  show ?case
  proof (cases "w_copy_ok w item")
    case True
    with Cons.prems have
      "copy_items w tmp items (emit (CopyEntry tmp item) (put_entry tmp item s)) = (s', r)" by simp
    from Cons.IH[OF this] obtain evs where
      "trace s' = trace s @ (CopyEntry tmp item # evs)" "list_all local_event (CopyEntry tmp item # evs)"
      by auto
    then show ?thesis by blast
  next
    case False
    with Cons.prems show ?thesis by (auto intro: exI[of _ "[]"])
  qed
qed

lemma only_emits_copy: "only_emits local_event (copy_artifact w artifact_dir tmp)"
  unfolding only_emits_def
proof (intro allI impI)
  fix s s' r
  assume a: "copy_artifact w artifact_dir tmp s = (s', r)"
  show "\<exists>evs. trace s' = trace s @ evs \<and> list_all local_event evs"
  proof (cases "w_path w artifact_dir")
    case Absent
    with a show ?thesis by (auto simp: copy_artifact_def intro: exI[of _ "[]"])
  next
    case RegularFile
    with a show ?thesis by (auto simp: copy_artifact_def)
  next
    case (Directory items)
    let ?p = "Print [T (''Copying artifact from '' @ artifact_dir @ '' to temp repo...'')]"
    from a Directory have "copy_items w tmp items (emit ?p s) = (s', r)"
      by (simp add: copy_artifact_def)
    from copy_items_appends[OF this] obtain evs where
      "trace s' = trace s @ (?p # evs)" "list_all local_event (?p # evs)" by auto
    then show ?thesis by blast
  qed
qed

lemma only_emits_try_finally:
  assumes "only_emits P m" and "\<And>s. \<exists>evs. trace (c s) = trace s @ evs \<and> list_all P evs"
  shows "only_emits P (try_finally m c)"
  unfolding only_emits_def
proof (intro allI impI)
  fix s s' r
  assume "try_finally m c s = (s', r)"
  then obtain s1 where m: "m s = (s1, r)" and s': "s' = c s1"
    by (auto simp: try_finally_def split: prod.splits)
  from only_emitsD[OF assms(1) m] obtain e1 where e1: "trace s1 = trace s @ e1" "list_all P e1" by blast
  from assms(2)[of s1] obtain e2 where e2: "trace (c s1) = trace s1 @ e2" "list_all P e2" by blast
  from e1 e2 s' have "trace s' = trace s @ (e1 @ e2)" "list_all P (e1 @ e2)" by simp_all
  then show "\<exists>evs. trace s' = trace s @ evs \<and> list_all P evs" by blast
qed

lemma remove_clone_appends:
  "\<exists>evs. trace (remove_clone w tmp s) = trace s @ evs \<and> list_all local_event evs"
  by (auto simp: remove_clone_def Let_def)

lemma only_emits_artifact_try:
  "only_emits local_event
     (git_push_artifact_dir_try w remote_url branch artifact_dir gsc commit_msg force tmp)"
  unfolding git_push_artifact_dir_try_def
  by (intro only_emits_seq only_emits_run only_emits_cloned only_emits_clean only_emits_copy
        only_emits_return)

lemma only_emits_artifact:
  "only_emits local_event
     (git_push_artifact_dir w remote_url branch artifact_dir ssh_key_path commit_msg force)"
  unfolding git_push_artifact_dir_def Let_def
  by (intro only_emits_seq only_emits_announce only_emits_mkdtemp only_emits_say
        only_emits_try_finally only_emits_artifact_try remove_clone_appends)

lemma only_emits_current_head:
  "only_emits local_event (git_push_current_head w remote_url branch ssh_key_path force)"
  unfolding git_push_current_head_def Let_def
  by (intro only_emits_seq only_emits_announce only_emits_run only_emits_return)

lemma only_emits_ensure_clean: "only_emits local_event (ensure_clean_worktree w allow_dirty)"
  unfolding ensure_clean_worktree_def
proof (intro only_emits_seq only_emits_run)
  fix res
  show "only_emits local_event
          (\<lambda>s. let dirty = py_strip (p_stdout res)
               in if dirty \<noteq> [] \<and> \<not> allow_dirty
                  then (emit (Print [T (''Working tree has uncommitted changes:'' @ [CHR 0x0A]), T dirty]) s,
                        Inl DirtyWorktree)
                  else if dirty \<noteq> [] \<and> allow_dirty
                       then say [T ''Warning: working tree is dirty but --allow-dirty set - proceeding.''] s
                       else (s, Inr ()))"
    by (auto simp: only_emits_def Let_def say_def emit_def intro: exI[of _ "[]"])
qed

lemma only_emits_main_push: "only_emits local_event (main_push w a ssh_key_path)"
proof (cases "str_truthy (a_artifact_dir a)")
  case True
  then show ?thesis
    unfolding main_push_def
    by (simp only: not_True_eq_False if_False)
       (intro only_emits_seq only_emits_artifact only_emits_say)
next
  case False
  then show ?thesis
    unfolding main_push_def
    by (simp only: not_False_eq_True if_True)
       (intro only_emits_seq only_emits_ensure_clean only_emits_say only_emits_current_head)
qed

section \<open>ArtifactDir: the claims\<close>

lemma artifact_cmds_distinct:
  "commit_cmd m tmp g \<noteq> clone_cmd u tmp g" "commit_cmd m tmp g \<noteq> checkout_cmd b tmp g"
  "commit_cmd m tmp g \<noteq> add_cmd tmp g" "commit_cmd m tmp g \<noteq> push_origin b f tmp g"
  by (simp_all add: commit_cmd_def clone_cmd_def checkout_cmd_def add_cmd_def push_origin_def
        git_def with_force_def)

lemma artifact_displays_distinct:
  "display (inv_cmd (clone_cmd u tmp g)) \<noteq> display (inv_cmd (commit_cmd m tmp g'))"
  "display (inv_cmd (checkout_cmd b tmp g)) \<noteq> display (inv_cmd (commit_cmd m tmp g'))"
  "display (inv_cmd (add_cmd tmp g)) \<noteq> display (inv_cmd (commit_cmd m tmp g'))"
  "display (inv_cmd (push_origin b f tmp g)) \<noteq> display (inv_cmd (commit_cmd m tmp g'))"
  by (simp_all add: commit_cmd_def clone_cmd_def checkout_cmd_def add_cmd_def push_origin_def
        git_def with_force_def display_def)

text \<open>
  C3 (as amended). In ArtifactDir payload preparation every failure of the commit step,
  whatever its exit code, is tolerated: once the commit command has run, the push is the
  next and last command, the result of the run is the result of the push, and no
  failure of the commit command is ever the error of the run.
\<close>

theorem commit_failure_tolerated:
  "trace s = [] \<Longrightarrow>
   git_push_artifact_dir w remote_url branch artifact_dir ssh_key_path commit_msg force s = (s', r) \<Longrightarrow>
   (\<forall>rcc. (commit_cmd commit_msg (w_tmp_dir w) (git_ssh_command ssh_key_path), rcc) \<in> set (execs (trace s')) \<longrightarrow>
      (\<exists>rc. execs (trace s') =
              [(clone_cmd remote_url (w_tmp_dir w) (git_ssh_command ssh_key_path), 0),
               (checkout_cmd branch (w_tmp_dir w) (git_ssh_command ssh_key_path), 0),
               (add_cmd (w_tmp_dir w) (git_ssh_command ssh_key_path), 0),
               (commit_cmd commit_msg (w_tmp_dir w) (git_ssh_command ssh_key_path), rcc),
               (push_origin branch force (w_tmp_dir w) (git_ssh_command ssh_key_path), rc)] \<and>
            r = (if rc = 0 then Inr ()
                 else Inl (CommandFailed
                        (display (inv_cmd (push_origin branch force (w_tmp_dir w) (git_ssh_command ssh_key_path)))) rc)))) \<and>
   (\<forall>rc. r \<noteq> Inl (CommandFailed
                  (display (inv_cmd (commit_cmd commit_msg (w_tmp_dir w) (git_ssh_command ssh_key_path)))) rc))"
proof -
  assume t0: "trace s = []"
    and run: "git_push_artifact_dir w remote_url branch artifact_dir ssh_key_path commit_msg force s = (s', r)"
  let ?g = "git_ssh_command ssh_key_path" and ?tmp = "w_tmp_dir w"
  from git_push_artifact_dir_unfold[OF run] obtain s1 s2 where
    s1: "execs (trace s1) = execs (trace s)"
    and blk: "git_push_artifact_dir_try w remote_url branch artifact_dir ?g commit_msg force ?tmp s1 = (s2, r)"
    and s': "s' = remove_clone w ?tmp s2"
    by blast
  have e: "execs (trace s') = execs (trace s2)" using s' by (simp add: remove_clone_facts)
  have e1: "execs (trace s1) = []" using s1 t0 by simp
  from git_push_artifact_dir_try_execs[OF blk] e e1
  show ?thesis
    by (elim conjE disjE exE) (auto simp: artifact_cmds_distinct artifact_displays_distinct)
qed

theorem commit_failure_tolerated_witness:
  "snd (git_push_artifact_dir (world0\<lparr>w_exec := failing ''commit'' 1\<rparr>)
          ''url'' ''main'' ''dist'' None ''msg'' False st0) = Inr ()"
proof -
  let ?w = "world0\<lparr>w_exec := failing ''commit'' 1\<rparr>"
  obtain s' r where run: "git_push_artifact_dir ?w ''url'' ''main'' ''dist'' None ''msg'' False st0 = (s', r)"
    by force
  have h0: "trace st0 = []" by (simp add: st0_def)
  have "execs (trace (fst (git_push_artifact_dir ?w ''url'' ''main'' ''dist'' None ''msg'' False st0))) =
          [(clone_cmd ''url'' (w_tmp_dir ?w) (git_ssh_command None), 0),
           (checkout_cmd ''main'' (w_tmp_dir ?w) (git_ssh_command None), 0),
           (add_cmd (w_tmp_dir ?w) (git_ssh_command None), 0),
           (commit_cmd ''msg'' (w_tmp_dir ?w) (git_ssh_command None), 1),
           (push_origin ''main'' False (w_tmp_dir ?w) (git_ssh_command None), 0)]"
    by code_simp
  with run have ex: "execs (trace s') =
          [(clone_cmd ''url'' (w_tmp_dir ?w) (git_ssh_command None), 0),
           (checkout_cmd ''main'' (w_tmp_dir ?w) (git_ssh_command None), 0),
           (add_cmd (w_tmp_dir ?w) (git_ssh_command None), 0),
           (commit_cmd ''msg'' (w_tmp_dir ?w) (git_ssh_command None), 1),
           (push_origin ''main'' False (w_tmp_dir ?w) (git_ssh_command None), 0)]"
    by simp
  from commit_failure_tolerated[OF h0 run] ex have "r = Inr ()" by auto
  with run show ?thesis by simp
qed

text \<open>
  C3 as stated fails: a commit that exits 128 (git's fatal error, not the exit 1 of
  "nothing to commit") does not abort the run; the push follows and the run succeeds.
\<close>

theorem commit_fatal_counterexample:
  "execs (trace (fst (git_push_artifact_dir (world0\<lparr>w_exec := failing ''commit'' 128\<rparr>)
            ''url'' ''main'' ''dist'' None ''msg'' False st0))) =
     [(clone_cmd ''url'' ''/tmp/deploy_clone_1'' None, 0),
      (checkout_cmd ''main'' ''/tmp/deploy_clone_1'' None, 0),
      (add_cmd ''/tmp/deploy_clone_1'' None, 0),
      (commit_cmd ''msg'' ''/tmp/deploy_clone_1'' None, 128),
      (push_origin ''main'' False ''/tmp/deploy_clone_1'' None, 0)] \<and>
   snd (git_push_artifact_dir (world0\<lparr>w_exec := failing ''commit'' 128\<rparr>)
          ''url'' ''main'' ''dist'' None ''msg'' False st0) = Inr ()"
  by code_simp

text \<open>
  C7. In ArtifactDir mode the clone directory is created by the run and, when the file
  system lets the tree be removed, no longer exists when \<open>git_push_artifact_dir\<close>
  ends, whatever the result: whether cloning, cleaning, copying, committing or pushing
  succeeded or failed.
\<close>

theorem clone_dir_removed:
  "w_rmtree_ok w \<Longrightarrow>
   git_push_artifact_dir w remote_url branch artifact_dir ssh_key_path commit_msg force s = (s', r) \<Longrightarrow>
   MkDTemp (w_tmp_dir w) \<in> set (trace s') \<and> RmTree (w_tmp_dir w) \<in> set (trace s') \<and>
   trees s' (w_tmp_dir w) = None"
proof -
  assume ok: "w_rmtree_ok w"
    and run: "git_push_artifact_dir w remote_url branch artifact_dir ssh_key_path commit_msg force s = (s', r)"
  from git_push_artifact_dir_unfold[OF run] obtain s1 s2 where
    mk: "MkDTemp (w_tmp_dir w) \<in> set (trace s1)"
    and blk: "git_push_artifact_dir_try w remote_url branch artifact_dir (git_ssh_command ssh_key_path)
                commit_msg force (w_tmp_dir w) s1 = (s2, r)"
    and s': "s' = remove_clone w (w_tmp_dir w) s2"
    by blast
  from only_emitsD[OF only_emits_artifact_try blk] mk have "MkDTemp (w_tmp_dir w) \<in> set (trace s2)"
    by auto
  with s' ok show ?thesis
    by (auto simp: remove_clone_def Let_def)
qed

theorem clone_dir_removed_witness:
  "snd (git_push_artifact_dir (world0\<lparr>w_exec := failing ''push'' 1\<rparr>)
          ''url'' ''main'' ''dist'' None ''msg'' False st0) =
     Inl (CommandFailed ''git push origin HEAD:refs/heads/main'' 1) \<and>
   trees (fst (git_push_artifact_dir (world0\<lparr>w_exec := failing ''push'' 1\<rparr>)
          ''url'' ''main'' ''dist'' None ''msg'' False st0)) ''/tmp/deploy_clone_1'' = None"
proof -
  let ?w = "world0\<lparr>w_exec := failing ''push'' 1\<rparr>"
  obtain s' r where run: "git_push_artifact_dir ?w ''url'' ''main'' ''dist'' None ''msg'' False st0 = (s', r)"
    by force
  have ok: "w_rmtree_ok ?w" by (simp add: world0_def)
  have tmp: "w_tmp_dir ?w = ''/tmp/deploy_clone_1''" by (simp add: world0_def)
  have "snd (git_push_artifact_dir ?w ''url'' ''main'' ''dist'' None ''msg'' False st0) =
     Inl (CommandFailed ''git push origin HEAD:refs/heads/main'' 1)"
    by code_simp
  moreover from clone_dir_removed[OF ok run] tmp run have
    "trees (fst (git_push_artifact_dir ?w ''url'' ''main'' ''dist'' None ''msg'' False st0))
        ''/tmp/deploy_clone_1'' = None"
    by simp
  ultimately show ?thesis by simp
qed

text \<open>
  C10. In ArtifactDir mode the clone is the first command of every run, whatever the
  artifact directory, and a clone that fails is the error of the run. The
  missing-directory error is raised only when the artifact directory does not exist,
  after clone and checkout have exited 0 and every entry of the clone other than
  \<open>.git\<close> has been deleted: at the raise the clone directory holds \<open>.git\<close> only.
\<close>

theorem missing_artifact_dir_after_clone:
  "trace s = [] \<Longrightarrow>
   git_push_artifact_dir w remote_url branch artifact_dir ssh_key_path commit_msg force s = (s', r) \<Longrightarrow>
   (\<exists>rc rest. execs (trace s') =
       (clone_cmd remote_url (w_tmp_dir w) (git_ssh_command ssh_key_path), rc) # rest \<and>
       (rc \<noteq> 0 \<longrightarrow> rest = [] \<and>
          r = Inl (CommandFailed
                 (display (inv_cmd (clone_cmd remote_url (w_tmp_dir w) (git_ssh_command ssh_key_path)))) rc))) \<and>
   (\<forall>x. r = Inl (ArtifactDirMissing x) \<longrightarrow>
      x = artifact_dir \<and> w_path w artifact_dir = Absent \<and>
      execs (trace s') =
        [(clone_cmd remote_url (w_tmp_dir w) (git_ssh_command ssh_key_path), 0),
         (checkout_cmd branch (w_tmp_dir w) (git_ssh_command ssh_key_path), 0)] \<and>
      (\<forall>e\<in>set (w_clone_tree w). fst e \<noteq> ''.git'' \<longrightarrow> DeleteEntry (w_tmp_dir w) e \<in> set (trace s')) \<and>
      (\<exists>s1 s2. trees s1 (w_tmp_dir w) = Some [] \<and>
            git_push_artifact_dir_try w remote_url branch artifact_dir (git_ssh_command ssh_key_path)
              commit_msg force (w_tmp_dir w) s1 = (s2, r) \<and>
            s' = remove_clone w (w_tmp_dir w) s2 \<and>
            trees s2 (w_tmp_dir w) = Some (filter (\<lambda>e. fst e = ''.git'') (w_clone_tree w))))"
proof -
  assume t0: "trace s = []"
    and run: "git_push_artifact_dir w remote_url branch artifact_dir ssh_key_path commit_msg force s = (s', r)"
  let ?g = "git_ssh_command ssh_key_path" and ?tmp = "w_tmp_dir w"
  from git_push_artifact_dir_unfold[OF run] obtain s1 s2 where
    s1: "execs (trace s1) = execs (trace s)"
    and em: "trees s1 ?tmp = Some []"
    and blk: "git_push_artifact_dir_try w remote_url branch artifact_dir ?g commit_msg force ?tmp s1 = (s2, r)"
    and s': "s' = remove_clone w ?tmp s2"
    by blast
  have e: "execs (trace s') = execs (trace s2)" using s' by (simp add: remove_clone_facts)
  have sub: "set (trace s2) \<subseteq> set (trace s')" using s' by (simp add: remove_clone_facts)
  have e1: "execs (trace s1) = []" using s1 t0 by simp
  note shape = git_push_artifact_dir_try_execs[OF blk]
  have first: "\<exists>rc rest. execs (trace s') = (clone_cmd remote_url ?tmp ?g, rc) # rest \<and>
       (rc \<noteq> 0 \<longrightarrow> rest = [] \<and> r = Inl (CommandFailed (display (inv_cmd (clone_cmd remote_url ?tmp ?g))) rc))"
    using shape e e1 by (elim conjE disjE exE) auto
  have second: "\<forall>x. r = Inl (ArtifactDirMissing x) \<longrightarrow>
      x = artifact_dir \<and> w_path w artifact_dir = Absent \<and>
      execs (trace s') = [(clone_cmd remote_url ?tmp ?g, 0), (checkout_cmd branch ?tmp ?g, 0)] \<and>
      (\<forall>e\<in>set (w_clone_tree w). fst e \<noteq> ''.git'' \<longrightarrow> DeleteEntry ?tmp e \<in> set (trace s')) \<and>
      (\<exists>s1 s2. trees s1 ?tmp = Some [] \<and>
            git_push_artifact_dir_try w remote_url branch artifact_dir ?g commit_msg force ?tmp s1 = (s2, r) \<and>
            s' = remove_clone w ?tmp s2 \<and>
            trees s2 ?tmp = Some (filter (\<lambda>e. fst e = ''.git'') (w_clone_tree w)))"
  proof (intro allI impI)
    fix x
    assume r: "r = Inl (ArtifactDirMissing x)"
    with shape e e1 have
      a: "x = artifact_dir" "w_path w artifact_dir = Absent"
         "execs (trace s') = [(clone_cmd remote_url ?tmp ?g, 0), (checkout_cmd branch ?tmp ?g, 0)]"
         "trees s2 ?tmp = Some (filter (\<lambda>e. fst e = ''.git'') (w_clone_tree w))"
         "\<forall>e\<in>set (w_clone_tree w). fst e \<noteq> ''.git'' \<longrightarrow> DeleteEntry ?tmp e \<in> set (trace s2)"
      by (elim conjE disjE exE; simp)+
    with sub s' em blk show "x = artifact_dir \<and> w_path w artifact_dir = Absent \<and>
      execs (trace s') = [(clone_cmd remote_url ?tmp ?g, 0), (checkout_cmd branch ?tmp ?g, 0)] \<and>
      (\<forall>e\<in>set (w_clone_tree w). fst e \<noteq> ''.git'' \<longrightarrow> DeleteEntry ?tmp e \<in> set (trace s')) \<and>
      (\<exists>s1 s2. trees s1 ?tmp = Some [] \<and>
            git_push_artifact_dir_try w remote_url branch artifact_dir ?g commit_msg force ?tmp s1 = (s2, r) \<and>
            s' = remove_clone w ?tmp s2 \<and>
            trees s2 ?tmp = Some (filter (\<lambda>e. fst e = ''.git'') (w_clone_tree w)))"
      by blast
  qed
  from first second show ?thesis by blast
qed

theorem missing_artifact_dir_after_clone_witness:
  "snd (git_push_artifact_dir world0 ''url'' ''main'' ''nodir'' None ''msg'' False st0) =
     Inl (ArtifactDirMissing ''nodir'') \<and>
   execs (trace (fst (git_push_artifact_dir world0 ''url'' ''main'' ''nodir'' None ''msg'' False st0))) =
     [(clone_cmd ''url'' ''/tmp/deploy_clone_1'' None, 0),
      (checkout_cmd ''main'' ''/tmp/deploy_clone_1'' None, 0)]"
proof -
  obtain s' r where run: "git_push_artifact_dir world0 ''url'' ''main'' ''nodir'' None ''msg'' False st0 = (s', r)"
    by force
  have h0: "trace st0 = []" by (simp add: st0_def)
  have "snd (git_push_artifact_dir world0 ''url'' ''main'' ''nodir'' None ''msg'' False st0) =
          Inl (ArtifactDirMissing ''nodir'')"
    by code_simp
  with run have r: "r = Inl (ArtifactDirMissing ''nodir'')" by simp
  have c: "w_tmp_dir world0 = ''/tmp/deploy_clone_1''" "git_ssh_command None = None"
    by (simp_all add: world0_def git_ssh_command_def)
  from missing_artifact_dir_after_clone[OF h0 run] r c run show ?thesis by auto
qed

section \<open>Command Runner: the echo\<close>

lemma run_echoes_first:
  "\<exists>rc tail. trace (fst (run w c chk s)) =
      trace s @ Print [T (''$ '' @ display (inv_cmd c))] # Exec c rc # tail"
  by (auto simp: run_def Let_def emit_def emits_def)

lemma contains_refl: "contains sub (sub @ post)"
  by (cases sub; cases post) simp_all

lemma contains_middle: "contains sub (pre @ sub @ post)"
proof (induction pre)
  case Nil
  show ?case using contains_refl[of sub post] by simp
next
  case (Cons a pre)
  then show ?case by simp
qed

lemma docker_login_echo:
  assumes "startswith ''ghcr.io/'' image_ref" and "w_GHCR_USER w = Some user" and "user \<noteq> []"
    and "w_GHCR_TOKEN w = Some token" and "token \<noteq> []"
  shows "\<exists>line. Print [T line] \<in> set (trace (fst (docker_login_if_needed w image_ref s))) \<and>
               contains token line"
proof -
  let ?line = "''$ echo '' @ token @ '' | docker login ghcr.io -u '' @ user @ '' --password-stdin''"
  have "Print [T ?line] \<in> set (trace (fst (docker_login_if_needed w image_ref s)))"
    using assms
    by (auto simp: docker_login_if_needed_def str_truthy_def or_default_def seq_def say_def run_def
          Let_def emit_def emits_def display_def)
  moreover have "contains token ?line"
    using contains_middle[of token "''$ echo ''" "'' | docker login ghcr.io -u '' @ user @ '' --password-stdin''"]
    by simp
  ultimately show ?thesis by blast
qed

text \<open>
  C9. Every command is echoed before it runs (\<open>run_echoes_first\<close>), but the claim that
  no secret is ever printed fails in the code: the registry login passes the token
  inside the shell command line, and \<open>run\<close> echoes that line. With GHCR_USER = alice and
  GHCR_TOKEN = s3cr3t the line printed holds the token.
\<close>

theorem docker_login_prints_token:
  "Print [T ''$ echo s3cr3t | docker login ghcr.io -u alice --password-stdin''] \<in>
     set (trace (fst (docker_login_if_needed
                        (world0\<lparr>w_GHCR_USER := Some ''alice'', w_GHCR_TOKEN := Some ''s3cr3t''\<rparr>)
                        ''ghcr.io/org/app'' st0))) \<and>
   contains ''s3cr3t'' ''$ echo s3cr3t | docker login ghcr.io -u alice --password-stdin''"
  by code_simp

section \<open>Credential Materializer\<close>

lemma write_ssh_key_runs:
  "k \<noteq> [] \<Longrightarrow> materializer_ok w \<Longrightarrow>
   \<exists>s' b. write_ssh_key_if_provided w (Some k) s = (s', Inr (Some (w_key_path w))) \<and>
      trace s' = trace s @
        [MkSTemp (w_key_path w), WriteFile (w_key_path w) b, Chmod (w_key_path w) 384,
         Print [T (''Wrote temporary SSH key to '' @ w_key_path w)]] \<and>
      files s' (w_key_path w) = Some (b, 384)"
  by (auto simp: write_ssh_key_if_provided_def materializer_ok_def Let_def owner_only_def emit_def)

lemma write_ssh_key_fails:
  "k \<noteq> [] \<Longrightarrow> \<not> materializer_ok w \<Longrightarrow>
   \<exists>s'. write_ssh_key_if_provided w (Some k) s = (s', Inl (PyError ''OSError'')) \<and>
      phases (trace s') = phases (trace s) @ (if w_mkstemp_ok w then [Materialize] else []) \<and>
      (w_mkstemp_ok w \<longrightarrow> files s' (w_key_path w) \<noteq> None) \<and>
      (\<not> w_mkstemp_ok w \<longrightarrow> s' = s)"
  by (auto simp: write_ssh_key_if_provided_def materializer_ok_def Let_def owner_only_def emit_def
        phases_def List.map_filter_def)

text \<open>
  C4 (as amended). For every non-empty key material, with the candidate being the input
  stripped of leading and trailing white space: the materializer creates a fresh file
  with mode 0600 (384) and writes to it exactly the decoded bytes when the candidate
  base64-decodes to bytes whose first 50 bytes contain BEGIN, and the UTF-8 bytes of the
  candidate when it does not decode or the marker is not within the first 50 bytes.
  When the file system refuses a call the materializer raises \<open>OSError\<close>; a file that
  was created stays, empty when the write was refused.
\<close>

theorem write_ssh_key_bytes:
  "k \<noteq> [] \<Longrightarrow>
   (\<exists>s' r b. write_ssh_key_if_provided w (Some k) s = (s', r) \<and>
      (\<forall>decoded. w_b64decode w (py_strip k) = Some decoded \<and> contains ''BEGIN'' (take 50 decoded) \<longrightarrow>
         b = decoded) \<and>
      ((w_b64decode w (py_strip k) = None \<or>
        (\<exists>decoded. w_b64decode w (py_strip k) = Some decoded \<and> \<not> contains ''BEGIN'' (take 50 decoded))) \<longrightarrow>
         b = py_encode (py_strip k)) \<and>
      (materializer_ok w \<longrightarrow>
         r = Inr (Some (w_key_path w)) \<and>
         trace s' = trace s @
           [MkSTemp (w_key_path w), WriteFile (w_key_path w) b, Chmod (w_key_path w) 384,
            Print [T (''Wrote temporary SSH key to '' @ w_key_path w)]]) \<and>
      (w_mkstemp_ok w \<and> w_write_ok w \<longrightarrow>
         files s' (w_key_path w) = Some (b, 384) \<and> WriteFile (w_key_path w) b \<in> set (trace s')) \<and>
      (w_mkstemp_ok w \<and> \<not> w_write_ok w \<longrightarrow>
         files s' (w_key_path w) = Some ([], 384) \<and> trace s' = trace s @ [MkSTemp (w_key_path w)]) \<and>
      (\<not> w_mkstemp_ok w \<longrightarrow> s' = s) \<and>
      (\<not> materializer_ok w \<longrightarrow> r = Inl (PyError ''OSError'')))"
  by (cases "w_b64decode w (py_strip k)")
     (auto simp: write_ssh_key_if_provided_def materializer_ok_def Let_def owner_only_def emit_def)

theorem write_ssh_key_bytes_witness:
  "\<exists>s'. write_ssh_key_if_provided world0 (Some ''LS0tLS1CRUdJTiBLRVktLS0tLQ=='') st0 =
          (s', Inr (Some ''/tmp/git_deploy_key_1'')) \<and>
        files s' ''/tmp/git_deploy_key_1'' = Some (''-----BEGIN KEY-----'', 384)"
proof -
  have h: "''LS0tLS1CRUdJTiBLRVktLS0tLQ=='' \<noteq> []" by simp
  have p: "w_key_path world0 = ''/tmp/git_deploy_key_1''" by (simp add: world0_def)
  have ok: "materializer_ok world0" "w_mkstemp_ok world0" "w_write_ok world0"
    by (simp_all add: materializer_ok_def world0_def)
  have d: "w_b64decode world0 (py_strip ''LS0tLS1CRUdJTiBLRVktLS0tLQ=='') = Some ''-----BEGIN KEY-----''"
    by code_simp
  have m: "contains ''BEGIN'' (take 50 ''-----BEGIN KEY-----'')" by code_simp
  from write_ssh_key_bytes[OF h, of world0 st0] p d m ok show ?thesis by auto
qed

text \<open>
  C4 as stated fails twice. The input \<open>ab\<close> followed by a newline does not decode, and
  the file holds \<open>ab\<close>, not the input's bytes. The base64 text of 52 bytes \<open>x\<close> followed
  by BEGIN decodes to bytes that contain the marker, and the file holds the base64 text,
  not the decoded bytes, since the marker lies beyond the first 50 bytes.
\<close>

theorem write_ssh_key_counterexample:
  "b64decode_std (''ab'' @ [CHR 0x0A]) = None \<and>
   files (fst (write_ssh_key_if_provided world0 (Some (''ab'' @ [CHR 0x0A])) st0))
     ''/tmp/git_deploy_key_1'' = Some (''ab'', 384) \<and>
   py_encode (''ab'' @ [CHR 0x0A]) = ''ab'' @ [CHR 0x0A] \<and>
   b64decode_std ''eHh4eHh4eHh4eHh4eHh4eHh4eHh4eHh4eHh4eHh4eHh4eHh4eHh4eHh4eHh4eHh4eHh4eEJFR0lO'' =
     Some ''xxxxxxxxxxxxxxxxxxxxxxxxxxxxxxxxxxxxxxxxxxxxxxxxxxxxBEGIN'' \<and>
   contains ''BEGIN'' ''xxxxxxxxxxxxxxxxxxxxxxxxxxxxxxxxxxxxxxxxxxxxxxxxxxxxBEGIN'' \<and>
   files (fst (write_ssh_key_if_provided world0
     (Some ''eHh4eHh4eHh4eHh4eHh4eHh4eHh4eHh4eHh4eHh4eHh4eHh4eHh4eHh4eHh4eHh4eHh4eEJFR0lO'') st0))
     ''/tmp/git_deploy_key_1'' =
     Some (''eHh4eHh4eHh4eHh4eHh4eHh4eHh4eHh4eHh4eHh4eHh4eHh4eHh4eHh4eHh4eHh4eHh4eEJFR0lO'', 384)"
  by code_simp

section \<open>Deployment Orchestrator: the credential file\<close>

lemma main_finally_removes:
  "w_remove_ok w \<Longrightarrow> p \<noteq> [] \<Longrightarrow> files (main_finally w (Some p) s) p = None"
  by (cases "files s p") (simp_all add: main_finally_def emit_def)

text \<open>
  When the materializer returns its handle and \<open>os.remove\<close> succeeds, the credential
  file no longer exists when \<open>main\<close> ends, whatever the outcome: success, a precondition
  failure, a push failure, an explicit deployment-failed status or any other error.
  \<open>main\<close> ends on every path on which the scripted status endpoint has an answer for
  each poll made.
\<close>

lemma credential_file_removed:
  "str_truthy (git_ssh_key w) \<Longrightarrow> materializer_ok w \<Longrightarrow> w_key_path w \<noteq> [] \<Longrightarrow> w_remove_ok w \<Longrightarrow>
   (\<exists>s1. write_ssh_key_if_provided w (git_ssh_key w) s = (s1, Inr (Some (w_key_path w))) \<and>
         files s1 (w_key_path w) \<noteq> None) \<and>
   (\<forall>s' r. main w a s = Some (s', r) \<longrightarrow> files s' (w_key_path w) = None) \<and>
   (main w a s = None \<longrightarrow>
      (\<exists>s2. poll_status_url w (or_default (a_status_url a) []) (w_BACKEND_IM_TOKEN w) 3
              (a_status_timeout a) s2 = None))"
proof -
  assume key: "str_truthy (git_ssh_key w)" and mat: "materializer_ok w"
    and p: "w_key_path w \<noteq> []" and ok: "w_remove_ok w"
  from key obtain k where k: "git_ssh_key w = Some k" "k \<noteq> []"
    by (auto simp: str_truthy_def split: option.splits)
  from write_ssh_key_runs[OF k(2) mat, of s] k(1) obtain s1 where
    s1: "write_ssh_key_if_provided w (git_ssh_key w) s = (s1, Inr (Some (w_key_path w)))"
        "files s1 (w_key_path w) \<noteq> None"
    by auto
  have m: "main w a s =
     (case main_try w a (Some (w_key_path w)) s1 of
        None \<Rightarrow> None
      | Some (s2, r) \<Rightarrow> Some (main_finally w (Some (w_key_path w)) s2, r))"
    using key s1 by (simp add: main_def)
  have removed: "\<forall>s' r. main w a s = Some (s', r) \<longrightarrow> files s' (w_key_path w) = None"
    using m main_finally_removes[OF ok p] by (auto split: option.splits)
  have stuck: "main w a s = None \<longrightarrow>
      (\<exists>s2. poll_status_url w (or_default (a_status_url a) []) (w_BACKEND_IM_TOKEN w) 3
              (a_status_timeout a) s2 = None)"
    using m
    by (auto simp: main_try_def main_poll_def split: option.splits prod.splits sum.splits if_splits)
  from s1 removed stuck show ?thesis by blast
qed

text \<open>
  When a call of the materializer fails after \<open>mkstemp\<close>, the exception leaves
  \<open>ssh_key_path\<close> unset in \<open>main\<close>: the \<open>finally\<close> block removes nothing and the file
  that was created stays.
\<close>

lemma credential_file_left:
  assumes "str_truthy (git_ssh_key w)" and "w_mkstemp_ok w" and "\<not> materializer_ok w"
  shows "\<exists>s'. main w a s = Some (s', Inl (PyError ''OSError'')) \<and> files s' (w_key_path w) \<noteq> None"
proof -
  from assms(1) obtain k where k: "git_ssh_key w = Some k" "k \<noteq> []"
    by (auto simp: str_truthy_def split: option.splits)
  from write_ssh_key_fails[OF k(2) assms(3), of s] assms(2) k(1) obtain s1 where
    "write_ssh_key_if_provided w (git_ssh_key w) s = (s1, Inl (PyError ''OSError''))"
    "files s1 (w_key_path w) \<noteq> None"
    by auto
  with assms(1) show ?thesis by (simp add: main_def main_finally_def)
qed

text \<open>
  C6. The credential file, once created, is to be gone when orchestration ends, on
  every exit path. The code misses one: with key material supplied and \<open>os.write\<close>
  failing after \<open>mkstemp\<close>, \<open>main\<close> ends with the error, the only event of the run is the
  creation of the file, and the file (empty, mode 0600) is still there.
\<close>

theorem key_file_left_after_failed_write:
  "map_option (\<lambda>(s', r). (r, files s' ''/tmp/git_deploy_key_1'', trace s'))
     (main (world0\<lparr>w_write_ok := False, w_GIT_SSH_KEY := Some ''LS0tLS1CRUdJTiBLRVktLS0tLQ==''\<rparr>)
        args0 st0) =
   Some (Inl (PyError ''OSError''), Some ([], 384), [MkSTemp ''/tmp/git_deploy_key_1''])"
  by code_simp

lemma credential_file_removed_examples:
  "(\<exists>s'. main (world0\<lparr>w_exec := dirty_tree, w_GIT_SSH_KEY := Some ''LS0tLS1CRUdJTiBLRVktLS0tLQ==''\<rparr>)
            args0 st0 = Some (s', Inl DirtyWorktree) \<and>
         files s' ''/tmp/git_deploy_key_1'' = None) \<and>
   (\<exists>s'. main (world0\<lparr>w_exec := failing ''push'' 1, w_GIT_SSH_KEY := Some ''LS0tLS1CRUdJTiBLRVktLS0tLQ==''\<rparr>)
            args0 st0 = Some (s', Inl (CommandFailed ''git push backend_im_deploy HEAD:refs/heads/main'' 1)) \<and>
         files s' ''/tmp/git_deploy_key_1'' = None) \<and>
   (\<exists>s'. main (world0\<lparr>w_http := [(0, Body (JObj [(''status'', JStr ''failed'')]))],
                      w_GIT_SSH_KEY := Some ''LS0tLS1CRUdJTiBLRVktLS0tLQ==''\<rparr>)
            (args0\<lparr>a_status_url := Some ''https://api/deploys/1''\<rparr>) st0 =
            Some (s', Inl (DeploymentFailed (JObj [(''status'', JStr ''failed'')]))) \<and>
         files s' ''/tmp/git_deploy_key_1'' = None)"
proof -
  let ?k = "Some ''LS0tLS1CRUdJTiBLRVktLS0tLQ==''"
  let ?w1 = "world0\<lparr>w_exec := dirty_tree, w_GIT_SSH_KEY := ?k\<rparr>"
  let ?w2 = "world0\<lparr>w_exec := failing ''push'' 1, w_GIT_SSH_KEY := ?k\<rparr>"
  let ?w3 = "world0\<lparr>w_http := [(0, Body (JObj [(''status'', JStr ''failed'')]))], w_GIT_SSH_KEY := ?k\<rparr>"
  let ?a3 = "args0\<lparr>a_status_url := Some ''https://api/deploys/1''\<rparr>"
  have key: "str_truthy (git_ssh_key ?w1)" "str_truthy (git_ssh_key ?w2)" "str_truthy (git_ssh_key ?w3)"
    by (simp_all add: git_ssh_key_def str_truthy_def world0_def)
  have p: "w_key_path ?w1 = ''/tmp/git_deploy_key_1''" "w_key_path ?w2 = ''/tmp/git_deploy_key_1''"
    "w_key_path ?w3 = ''/tmp/git_deploy_key_1''"
    by (simp_all add: world0_def)
  have ok: "w_remove_ok ?w1" "w_remove_ok ?w2" "w_remove_ok ?w3" by (simp_all add: world0_def)
  have mat: "materializer_ok ?w1" "materializer_ok ?w2" "materializer_ok ?w3"
    by (simp_all add: materializer_ok_def world0_def)
  have "map_option snd (main ?w1 args0 st0) = Some (Inl DirtyWorktree)" by code_simp
  then obtain s1 where r1: "main ?w1 args0 st0 = Some (s1, Inl DirtyWorktree)" by auto
  have "map_option snd (main ?w2 args0 st0) =
          Some (Inl (CommandFailed ''git push backend_im_deploy HEAD:refs/heads/main'' 1))"
    by code_simp
  then obtain s2 where
    r2: "main ?w2 args0 st0 = Some (s2, Inl (CommandFailed ''git push backend_im_deploy HEAD:refs/heads/main'' 1))"
    by auto
  have "map_option snd (main ?w3 ?a3 st0) =
          Some (Inl (DeploymentFailed (JObj [(''status'', JStr ''failed'')])))"
    by code_simp
  then obtain s3 where
    r3: "main ?w3 ?a3 st0 = Some (s3, Inl (DeploymentFailed (JObj [(''status'', JStr ''failed'')])))"
    by auto
  have n: "''/tmp/git_deploy_key_1'' \<noteq> []" by simp
  from credential_file_removed[OF key(1) mat(1) _ ok(1), of st0 args0] p(1) r1 n
  have f1: "files s1 ''/tmp/git_deploy_key_1'' = None" by simp
  from credential_file_removed[OF key(2) mat(2) _ ok(2), of st0 args0] p(2) r2 n
  have f2: "files s2 ''/tmp/git_deploy_key_1'' = None" by simp
  from credential_file_removed[OF key(3) mat(3) _ ok(3), of st0 ?a3] p(3) r3 n
  have f3: "files s3 ''/tmp/git_deploy_key_1'' = None" by simp
  from r1 f1 r2 f2 r3 f3 show ?thesis by blast
qed

section \<open>Deployment Orchestrator: the order of the steps\<close>

lemma phases_Nil [simp]: "phases [] = []"
  by (simp add: phases_def List.map_filter_simps)

lemma phases_Cons:
  "phases (e # es) = (case phase_of e of None \<Rightarrow> phases es | Some p \<Rightarrow> p # phases es)"
  by (simp add: phases_def List.map_filter_simps split: option.splits)

lemma phases_append [simp]: "phases (xs @ ys) = phases xs @ phases ys"
  by (simp add: phases_def List.map_filter_def)

lemma phases_local:
  "list_all local_event evs \<Longrightarrow>
   phases evs = List.map_filter (\<lambda>x. cmd_phase (inv_cmd (fst x))) (execs evs)"
proof (induction evs)
  case Nil
  show ?case by (simp add: List.map_filter_simps)
next
  case (Cons e evs)
  then show ?case
    by (cases e) (auto simp: phases_Cons List.map_filter_simps split: option.splits)
qed

lemma sorted_const: "set qs \<subseteq> {x} \<Longrightarrow> sorted (map f qs)"
  by (induction qs) auto

lemma code_rank_le: "code_rank p \<le> 4"
  by (cases p) simp_all

lemma phases_of_run:
  assumes "only_emits local_event m" and "m s = (s', r)"
    and "execs (trace s') = execs (trace s) @ xs"
  shows "phases (trace s') = phases (trace s) @ List.map_filter (\<lambda>x. cmd_phase (inv_cmd (fst x))) xs"
proof -
  from only_emitsD[OF assms(1,2)] obtain evs where
    evs: "trace s' = trace s @ evs" "list_all local_event evs" by blast
  with assms(3) have "execs evs = xs" by simp
  with phases_local[OF evs(2)] evs(1) show ?thesis by simp
qed

lemma cmd_phase_simps [simp]:
  "cmd_phase (inv_cmd remove_remote) = Some Push"
  "cmd_phase (inv_cmd (add_remote u g)) = Some Push"
  "cmd_phase (inv_cmd (push_head b f g)) = Some Push"
  "cmd_phase (inv_cmd (clone_cmd u t g)) = Some Prepare"
  "cmd_phase (inv_cmd (checkout_cmd b t g)) = Some Prepare"
  "cmd_phase (inv_cmd (add_cmd t g)) = Some Prepare"
  "cmd_phase (inv_cmd (commit_cmd m t g)) = Some Prepare"
  "cmd_phase (inv_cmd (push_origin b f t g)) = Some Push"
  "cmd_phase (inv_cmd (git [''git'', ''status'', ''--porcelain''] None None True)) = Some Validate"
  by (simp_all add: cmd_phase_def remove_remote_def add_remote_def push_head_def clone_cmd_def
        checkout_cmd_def add_cmd_def commit_cmd_def push_origin_def git_def with_force_def
        remote_name_def)

lemma ensure_clean_worktree_execs:
  assumes "ensure_clean_worktree w allow_dirty s = (s', r)"
  shows "\<exists>rc. execs (trace s') = execs (trace s) @
                [(git [''git'', ''status'', ''--porcelain''] None None True, rc)]"
proof -
  from assms have "seq (run w (git [''git'', ''status'', ''--porcelain''] None None True) True)
       (\<lambda>res s.
          let dirty = py_strip (p_stdout res)
          in if dirty \<noteq> [] \<and> \<not> allow_dirty then
               (emit (Print [T (''Working tree has uncommitted changes:'' @ [CHR 0x0A]), T dirty]) s,
                Inl DirtyWorktree)
             else if dirty \<noteq> [] \<and> allow_dirty then
               say [T ''Warning: working tree is dirty but --allow-dirty set - proceeding.''] s
             else (s, Inr ())) s = (s', r)"
    by (simp add: ensure_clean_worktree_def)
  then show ?thesis
  proof (cases rule: seqE)
    case (raised e)
    from run_execs_Inl[OF raised(1)] show ?thesis by auto
  next
    case (went_on s1 v)
    from went_on(2) have "execs (trace s') = execs (trace s1)"
      by (auto simp: Let_def say_def split: if_splits)
    with run_execs_Inr[OF went_on(1)] show ?thesis by auto
  qed
qed

lemma ensure_clean_worktree_phases:
  assumes "ensure_clean_worktree w allow_dirty s = (s', r)"
  shows "phases (trace s') = phases (trace s) @ [Validate]"
proof -
  from ensure_clean_worktree_execs[OF assms] obtain rc where
    "execs (trace s') = execs (trace s) @ [(git [''git'', ''status'', ''--porcelain''] None None True, rc)]"
    by blast
  from phases_of_run[OF only_emits_ensure_clean assms this] show ?thesis
    by (simp add: List.map_filter_simps)
qed

lemma git_push_current_head_phases:
  assumes "git_push_current_head w remote_url branch ssh_key_path force s = (s', r)"
  shows "\<exists>ps. phases (trace s') = phases (trace s) @ ps \<and> set ps \<subseteq> {Push}"
proof -
  note ph = phases_of_run[OF only_emits_current_head assms]
  from git_push_current_head_execs[OF assms] show ?thesis
    by (elim exE disjE conjE) (drule ph, simp add: List.map_filter_simps)+
qed

lemma git_push_artifact_dir_phases:
  assumes "git_push_artifact_dir w remote_url branch artifact_dir ssh_key_path commit_msg force s = (s', r)"
  shows "\<exists>ps. phases (trace s') = phases (trace s) @ ps \<and> sorted (map code_rank ps) \<and>
              set ps \<subseteq> {Prepare, Push}"
proof -
  from git_push_artifact_dir_unfold[OF assms] obtain s1 s2 where
    s1: "execs (trace s1) = execs (trace s)"
    and blk: "git_push_artifact_dir_try w remote_url branch artifact_dir (git_ssh_command ssh_key_path)
                commit_msg force (w_tmp_dir w) s1 = (s2, r)"
    and s': "s' = remove_clone w (w_tmp_dir w) s2"
    by blast
  have e: "execs (trace s') = execs (trace s2)" using s' by (simp add: remove_clone_facts)
  note ph = phases_of_run[OF only_emits_artifact assms]
  from git_push_artifact_dir_try_execs[OF blk] show ?thesis
    unfolding e[symmetric] s1
    by (elim exE disjE conjE) (drule ph, simp add: List.map_filter_simps)+
qed

lemma say_phases: "say ps s = (s', r) \<Longrightarrow> phases (trace s') = phases (trace s)"
  by (auto simp: say_def phases_Cons)

text \<open>The steps of the push phase: the work-tree check first, in DirectHead mode only.\<close>

lemma main_push_phases:
  assumes "main_push w a ssh_key_path s = (s', r)"
  shows "\<exists>ps. phases (trace s') = phases (trace s) @ ps \<and> sorted (map code_rank ps) \<and>
              (if str_truthy (a_artifact_dir a) then set ps \<subseteq> {Prepare, Push}
               else \<exists>qs. ps = Validate # qs \<and> set qs \<subseteq> {Push})"
proof (cases "str_truthy (a_artifact_dir a)")
  case True
  with assms have "seq (git_push_artifact_dir w (a_remote a) (a_branch a) (or_default (a_artifact_dir a) [])
              ssh_key_path (or_default (a_commit_msg a) (''deploy: '' @ w_timestamp w)) (a_force a))
     (\<lambda>_. say [T (''Push to '' @ a_remote a @ '' branch '' @ a_branch a @ '' complete.'')]) s = (s', r)"
    by (simp add: main_push_def)
  then show ?thesis
  proof (cases rule: seqE)
    case (raised e)
    from git_push_artifact_dir_phases[OF raised(1)] True show ?thesis by auto
  next
    case (went_on s1 v)
    from git_push_artifact_dir_phases[OF went_on(1)] say_phases[OF went_on(2)] True
    show ?thesis by auto
  qed
next
  case False
  have shape: "\<exists>ps. phases (trace t) = phases (trace s) @ ps \<and> sorted (map code_rank ps) \<and>
              (\<exists>qs. ps = Validate # qs \<and> set qs \<subseteq> {Push})"
    if "seq (ensure_clean_worktree w (a_allow_dirty a))
            (\<lambda>_. seq (say [T (''Pushing current HEAD to '' @ a_remote a @ '' branch '' @ a_branch a)])
            (\<lambda>_. git_push_current_head w (a_remote a) (a_branch a) ssh_key_path (a_force a))) s = (t, x)"
    for t x
    using that
  proof (cases rule: seqE)
    case (raised e)
    from ensure_clean_worktree_phases[OF raised(1)] show ?thesis by simp
  next
    case (went_on s1 v)
    note v1 = ensure_clean_worktree_phases[OF went_on(1)]
    from went_on(2) show ?thesis
    proof (cases rule: seqE)
      case (raised e)
      from say_phases[OF raised(1)] v1 show ?thesis by simp
    next
      case (went_on s2 u)
      from git_push_current_head_phases[OF went_on(2)] obtain qs where
        qs: "phases (trace t) = phases (trace s2) @ qs" "set qs \<subseteq> {Push}" by blast
      then have "sorted (map code_rank (Validate # qs))"
        using sorted_const[of qs Push code_rank] by auto
      with qs say_phases[OF went_on(1)] v1 show ?thesis by simp
    qed
  qed
  from assms False have "seq (seq (ensure_clean_worktree w (a_allow_dirty a))
            (\<lambda>_. seq (say [T (''Pushing current HEAD to '' @ a_remote a @ '' branch '' @ a_branch a)])
            (\<lambda>_. git_push_current_head w (a_remote a) (a_branch a) ssh_key_path (a_force a))))
     (\<lambda>_. say [T (''Push to '' @ a_remote a @ '' branch '' @ a_branch a @ '' complete.'')]) s = (s', r)"
    by (simp add: main_push_def)
  then show ?thesis
  proof (cases rule: seqE)
    case (raised e)
    from shape[OF raised(1)] False show ?thesis by simp
  next
    case (went_on s1 v)
    from shape[OF went_on(1)] say_phases[OF went_on(2)] False show ?thesis by simp
  qed
qed

lemma poll_cycle_phases: "phases (fst (poll_cycle resp seen)) = []"
  by (auto simp: poll_cycle_def Let_def phases_Cons split: response.splits json.splits)

lemma poll_loop_phases:
  "poll_loop url hs iv dl now seen script s = Some (s', r) \<Longrightarrow>
   \<exists>n. phases (trace s') = phases (trace s) @ replicate n Poll"
proof (induction script arbitrary: now seen s)
  case Nil
  then show ?case by (auto simp: phases_Cons split: if_splits intro: exI[of _ 0])
next
  case (Cons y script)
  obtain d resp where y: "y = (d, resp)" by (cases y)
  show ?case
  proof (cases "now < dl")
    case False
    with Cons.prems y show ?thesis by (auto simp: phases_Cons intro: exI[of _ 0])
  next
    case True
    obtain evs stp where pc: "poll_cycle resp seen = (evs, stp)" by (cases "poll_cycle resp seen")
    have evs: "phases evs = []" using poll_cycle_phases[of resp seen] pc by simp
    have one: "phases (trace (emits (HttpGet url hs # evs @ extra) s)) =
               phases (trace s) @ Poll # phases extra" for extra
      using evs by (simp add: emits_def phases_Cons)
    show ?thesis
    proof (cases stp)
      case (Return j)
      with Cons.prems y True pc one[of "[]"] show ?thesis
        by (auto intro: exI[of _ 1])
    next
      case (Raise e)
      with Cons.prems y True pc one[of "[]"] show ?thesis
        by (auto intro: exI[of _ 1])
    next
      case (Continue seen')
      show ?thesis
      proof (cases "iv < 0")
        case neg: True
        with Cons.prems y True pc Continue one[of "[]"] show ?thesis
          by (auto intro: exI[of _ 1])
      next
        case False
        with Cons.prems y True pc Continue have
          "poll_loop url hs iv dl (now + d + of_int iv) seen' script
             (emits (HttpGet url hs # evs @ [Sleep iv]) s) = Some (s', r)"
          by simp
        from Cons.IH[OF this] obtain n where
          "phases (trace s') = phases (trace (emits (HttpGet url hs # evs @ [Sleep iv]) s)) @ replicate n Poll"
          by blast
        with one[of "[Sleep iv]"] have "phases (trace s') = phases (trace s) @ replicate (Suc n) Poll"
          by (simp add: phases_Cons)
        then show ?thesis by blast
      qed
    qed
  qed
qed

lemma main_poll_phases:
  assumes "main_poll w a s = Some (s', r)"
  shows "\<exists>n. phases (trace s') = phases (trace s) @ replicate n Poll \<and>
             (\<not> (str_truthy (a_status_url a) \<and> \<not> a_skip_poll a) \<longrightarrow> n = 0)"
proof (cases "str_truthy (a_status_url a) \<and> \<not> a_skip_poll a")
  case True
  with assms obtain r' where
    "poll_status_url w (or_default (a_status_url a) []) (w_BACKEND_IM_TOKEN w) 3
       (a_status_timeout a) s = Some (s', r')"
    by (auto simp: main_poll_def split: option.splits prod.splits sum.splits)
  then have "\<exists>n. phases (trace s') = phases (trace s) @ replicate n Poll"
  proof (cases "float_overflow (a_status_timeout a)")
    case over: True
    assume "poll_status_url w (or_default (a_status_url a) []) (w_BACKEND_IM_TOKEN w) 3
              (a_status_timeout a) s = Some (s', r')"
    with over have "phases (trace s') = phases (trace s)"
      by (auto simp: poll_status_url_def Let_def phases_Cons)
    then show ?thesis by (intro exI[of _ 0]) simp
  next
    case False
    assume "poll_status_url w (or_default (a_status_url a) []) (w_BACKEND_IM_TOKEN w) 3
              (a_status_timeout a) s = Some (s', r')"
    with False show ?thesis
      unfolding poll_status_url_def Let_def
      by (simp only: if_False) (drule poll_loop_phases, simp add: phases_Cons)
  qed
  with True show ?thesis by simp
next
  case False
  with assms have "phases (trace s') = phases (trace s)"
    by (auto simp: main_poll_def phases_Cons split: if_splits)
  with False show ?thesis by (intro exI[of _ 0]) simp
qed

lemma main_finally_phases: "phases (trace (main_finally w kp s)) = phases (trace s)"
  by (auto simp: main_finally_def phases_Cons split: option.splits)

lemma main_try_phases:
  assumes "main_try w a kp s = Some (s', r)"
  shows "\<exists>ps n. phases (trace s') = phases (trace s) @ ps @ replicate n Poll \<and>
           sorted (map code_rank ps) \<and>
           (if str_truthy (a_artifact_dir a) then set ps \<subseteq> {Prepare, Push}
            else \<exists>qs. ps = Validate # qs \<and> set qs \<subseteq> {Push}) \<and>
           (\<not> (str_truthy (a_status_url a) \<and> \<not> a_skip_poll a) \<longrightarrow> n = 0)"
proof -
  obtain s1 r1 where mp: "main_push w a kp s = (s1, r1)" by force
  from main_push_phases[OF mp] obtain ps where
    ps: "phases (trace s1) = phases (trace s) @ ps" "sorted (map code_rank ps)"
        "if str_truthy (a_artifact_dir a) then set ps \<subseteq> {Prepare, Push}
         else \<exists>qs. ps = Validate # qs \<and> set qs \<subseteq> {Push}"
    by blast
  show ?thesis
  proof (cases r1)
    case (Inl e)
    with assms mp have "s' = s1" by (simp add: main_try_def)
    with ps show ?thesis by (intro exI[of _ ps] exI[of _ 0]) simp
  next
    case (Inr u)
    with assms mp have "main_poll w a s1 = Some (s', r)" by (simp add: main_try_def)
    from main_poll_phases[OF this] obtain n where
      "phases (trace s') = phases (trace s1) @ replicate n Poll"
      "\<not> (str_truthy (a_status_url a) \<and> \<not> a_skip_poll a) \<longrightarrow> n = 0"
      by blast
    with ps show ?thesis by (intro exI[of _ ps] exI[of _ n]) simp
  qed
qed

lemma sorted_steps:
  assumes "sorted (map code_rank ps)" and "set ps \<subseteq> {Validate, Prepare, Push}"
    and "set ks \<subseteq> {Materialize}"
  shows "sorted (map code_rank (ks @ ps @ replicate n Poll))"
proof -
  have k: "sorted (map code_rank ks)" using sorted_const[OF assms(3)] .
  have k0: "\<forall>x\<in>set ks. code_rank x = 0" using assms(3) by auto
  have p4: "\<forall>y\<in>set (replicate n Poll). code_rank y = 4" by simp
  have "sorted (map code_rank (ps @ replicate n Poll))"
    using assms(1) p4 code_rank_le by (simp add: sorted_append sorted_replicate)
  with k k0 show ?thesis by (simp add: sorted_append)
qed

text \<open>
  C8 (as amended). In every run the steps occur in the order: create the credential
  file (when key material is supplied), check the work tree (DirectHead mode only),
  prepare the payload, push, poll the status URL (only when one is given and polling is
  not skipped). In particular, with key material in DirectHead mode the credential file
  is created first and the work-tree check is the second step. A run whose
  materializer fails ends there.
\<close>

theorem main_step_order:
  "trace s = [] \<Longrightarrow> main w a s = Some (s', r) \<Longrightarrow>
   sorted (map code_rank (phases (trace s'))) \<and>
   (str_truthy (git_ssh_key w) \<and> materializer_ok w \<and> \<not> str_truthy (a_artifact_dir a) \<longrightarrow>
      take 2 (phases (trace s')) = [Materialize, Validate]) \<and>
   (str_truthy (git_ssh_key w) \<and> materializer_ok w \<and> str_truthy (a_artifact_dir a) \<longrightarrow>
      take 1 (phases (trace s')) = [Materialize]) \<and>
   (str_truthy (git_ssh_key w) \<and> \<not> materializer_ok w \<longrightarrow>
      phases (trace s') = (if w_mkstemp_ok w then [Materialize] else []) \<and>
      r = Inl (PyError ''OSError'')) \<and>
   (\<not> str_truthy (git_ssh_key w) \<longrightarrow> Materialize \<notin> set (phases (trace s'))) \<and>
   (\<not> str_truthy (git_ssh_key w) \<and> \<not> str_truthy (a_artifact_dir a) \<longrightarrow>
      take 1 (phases (trace s')) = [Validate]) \<and>
   (str_truthy (a_artifact_dir a) \<longrightarrow> Validate \<notin> set (phases (trace s'))) \<and>
   (\<not> (str_truthy (a_status_url a) \<and> \<not> a_skip_poll a) \<longrightarrow> Poll \<notin> set (phases (trace s')))"
proof (cases "str_truthy (git_ssh_key w) \<and> \<not> materializer_ok w")
  case True
  assume t0: "trace s = []" and run: "main w a s = Some (s', r)"
  from True obtain k where k: "git_ssh_key w = Some k" "k \<noteq> []"
    by (auto simp: str_truthy_def split: option.splits)
  from write_ssh_key_fails[OF k(2), of w s] True k(1) obtain s1 where
    s1: "write_ssh_key_if_provided w (git_ssh_key w) s = (s1, Inl (PyError ''OSError''))"
        "phases (trace s1) = phases (trace s) @ (if w_mkstemp_ok w then [Materialize] else [])"
    by auto
  with run True have "s' = s1" "r = Inl (PyError ''OSError'')"
    by (auto simp: main_def main_finally_def)
  with s1(2) t0 True show ?thesis by auto
next
  case ok: False
  assume t0: "trace s = []" and run: "main w a s = Some (s', r)"
  have "\<exists>s1 kp. (if str_truthy (git_ssh_key w) then write_ssh_key_if_provided w (git_ssh_key w) s
            else (s, Inr None)) = (s1, Inr kp) \<and>
          phases (trace s1) = (if str_truthy (git_ssh_key w) then [Materialize] else [])"
  proof (cases "str_truthy (git_ssh_key w)")
    case True
    then obtain k where k: "git_ssh_key w = Some k" "k \<noteq> []"
      by (auto simp: str_truthy_def split: option.splits)
    from True ok have "materializer_ok w" by simp
    from write_ssh_key_runs[OF k(2) this, of s] k(1) True t0 show ?thesis
      by (auto simp: phases_Cons)
  next
    case False
    with t0 show ?thesis by simp
  qed
  then obtain s1 kp where key: "(if str_truthy (git_ssh_key w) then write_ssh_key_if_provided w (git_ssh_key w) s
            else (s, Inr None)) = (s1, Inr kp)"
    and ks: "phases (trace s1) = (if str_truthy (git_ssh_key w) then [Materialize] else [])"
    by blast
  define ks where "ks = (if str_truthy (git_ssh_key w) then [Materialize] else [])"
  from run key obtain s2 where mt: "main_try w a kp s1 = Some (s2, r)"
    and s': "s' = main_finally w kp s2"
    by (auto simp: main_def split: option.splits)
  from main_try_phases[OF mt] ks obtain ps n where
    ph: "phases (trace s2) = ks @ ps @ replicate n Poll" "sorted (map code_rank ps)"
        "if str_truthy (a_artifact_dir a) then set ps \<subseteq> {Prepare, Push}
         else \<exists>qs. ps = Validate # qs \<and> set qs \<subseteq> {Push}"
        "\<not> (str_truthy (a_status_url a) \<and> \<not> a_skip_poll a) \<longrightarrow> n = 0"
    unfolding ks_def by auto
  have all: "phases (trace s') = ks @ ps @ replicate n Poll"
    using s' ph(1) by (simp add: main_finally_phases)
  have sub: "set ps \<subseteq> {Validate, Prepare, Push}"
    using ph(3) by (auto split: if_splits)
  have ksub: "set ks \<subseteq> {Materialize}" unfolding ks_def by auto
  have "sorted (map code_rank (phases (trace s')))"
    unfolding all using sorted_steps[OF ph(2) sub ksub] .
  moreover have "str_truthy (git_ssh_key w) \<and> materializer_ok w \<and> \<not> str_truthy (a_artifact_dir a) \<longrightarrow>
      take 2 (phases (trace s')) = [Materialize, Validate]"
    using all ph(3) unfolding ks_def by auto
  moreover have "str_truthy (git_ssh_key w) \<and> materializer_ok w \<and> str_truthy (a_artifact_dir a) \<longrightarrow>
      take 1 (phases (trace s')) = [Materialize]"
    using all unfolding ks_def by auto
  moreover have "str_truthy (git_ssh_key w) \<and> \<not> materializer_ok w \<longrightarrow>
      phases (trace s') = (if w_mkstemp_ok w then [Materialize] else []) \<and>
      r = Inl (PyError ''OSError'')"
    using ok by blast
  moreover have "\<not> str_truthy (git_ssh_key w) \<longrightarrow> Materialize \<notin> set (phases (trace s'))"
    using all sub unfolding ks_def by auto
  moreover have "\<not> str_truthy (git_ssh_key w) \<and> \<not> str_truthy (a_artifact_dir a) \<longrightarrow>
      take 1 (phases (trace s')) = [Validate]"
    using all ph(3) unfolding ks_def by auto
  moreover have "str_truthy (a_artifact_dir a) \<longrightarrow> Validate \<notin> set (phases (trace s'))"
    using all ph(3) unfolding ks_def by (auto split: if_splits)
  moreover have "\<not> (str_truthy (a_status_url a) \<and> \<not> a_skip_poll a) \<longrightarrow> Poll \<notin> set (phases (trace s'))"
    using all ph(3,4) unfolding ks_def by (auto split: if_splits)
  ultimately show ?thesis by blast
qed

theorem main_step_order_witness:
  "\<exists>s' r. main (world0\<lparr>w_exec := dirty_tree, w_GIT_SSH_KEY := Some ''LS0tLS1CRUdJTiBLRVktLS0tLQ==''\<rparr>)
             args0 st0 = Some (s', r) \<and>
          take 2 (phases (trace s')) = [Materialize, Validate]"
proof -
  let ?w = "world0\<lparr>w_exec := dirty_tree, w_GIT_SSH_KEY := Some ''LS0tLS1CRUdJTiBLRVktLS0tLQ==''\<rparr>"
  have h0: "trace st0 = []" by (simp add: st0_def)
  have "map_option snd (main ?w args0 st0) = Some (Inl DirtyWorktree)" by code_simp
  then obtain s' where run: "main ?w args0 st0 = Some (s', Inl DirtyWorktree)" by auto
  have key: "str_truthy (git_ssh_key ?w)" by (simp add: git_ssh_key_def str_truthy_def world0_def)
  have mode: "\<not> str_truthy (a_artifact_dir args0)" by (simp add: args0_def str_truthy_def)
  have mat: "materializer_ok ?w" by (simp add: materializer_ok_def world0_def)
  from main_step_order[OF h0 run] key mode mat have "take 2 (phases (trace s')) = [Materialize, Validate]"
    by blast
  with run show ?thesis by blast
qed

text \<open>
  C8 as stated fails: with key material and a dirty work tree in DirectHead mode, the
  credential file is created before the work-tree check, which then fails; in the
  order stated the check would come first.
\<close>

theorem validation_first_counterexample:
  "map_option (\<lambda>(s', r). (phases (trace s'), r))
     (main (world0\<lparr>w_exec := dirty_tree, w_GIT_SSH_KEY := Some ''LS0tLS1CRUdJTiBLRVktLS0tLQ==''\<rparr>)
        args0 st0) = Some ([Materialize, Validate], Inl DirtyWorktree) \<and>
   \<not> sorted (map claimed_rank [Materialize, Validate])"
  by code_simp

end
